theory Spec2Isabelle
  imports Complex_Main "HOL-Library.Sublist" "HOL-Library.Multiset"
begin

section \<open>Python helpers\<close>

text \<open>
  Python strings are modelled as \<open>string\<close>, one \<open>char\<close> per code point (all code points
  used by the program's own literals are below 256: the accented letters of the French
  messages are written as \<open>CHR 0xC9\<close> and \<open>CHR 0xE9\<close>).
\<close>

text \<open>\<open>xs[:r]\<close>: a negative bound counts from the end, as Python slicing does.\<close>

definition py_slice_to :: "'a list \<Rightarrow> int \<Rightarrow> 'a list" where
  "py_slice_to xs r =
     (if 0 \<le> r then take (nat r) xs else take (nat (int (length xs) + r)) xs)"

section \<open>URLCollector\<close>

text \<open>
  \<^verbatim>\<open>
  class URLCollector:
      def __init__(self, limit=0):
          self.limit = limit  # 0 = illimite
          self.urls = []
  \<close>
\<close>

record URLCollector =
  limit :: int
  urls :: "string list"

definition URLCollector_init :: "int \<Rightarrow> URLCollector" where
  "URLCollector_init lmt = \<lparr>limit = lmt, urls = []\<rparr>"

text \<open>
  \<open>add_urls\<close> mutates \<open>self.urls\<close> and returns a bool; the model returns the bool together
  with the updated collector. The branches are those of the source, in its order.
\<close>

definition add_urls :: "URLCollector \<Rightarrow> string list \<Rightarrow> bool \<times> URLCollector" where
  "add_urls self new_urls =
     (if limit self \<le> 0 then (True, self\<lparr>urls := urls self @ new_urls\<rparr>)
      else
        let remaining = limit self - int (length (urls self)) in
        if remaining \<le> 0 then (False, self)
        else if int (length new_urls) > remaining
          then (False, self\<lparr>urls := urls self @ py_slice_to new_urls remaining\<rparr>)
          else (True, self\<lparr>urls := urls self @ new_urls\<rparr>))"

text \<open>A sequence of \<open>add_urls\<close> calls on one collector, the returned bools dropped.\<close>

fun add_urls_seq :: "URLCollector \<Rightarrow> string list list \<Rightarrow> URLCollector" where
  "add_urls_seq c [] = c"
| "add_urls_seq c (xs # calls) = add_urls_seq (snd (add_urls c xs)) calls"

section \<open>Strings and formatting\<close>

definition e_acute :: char where "e_acute = CHR 0xE9"
definition E_acute :: char where "E_acute = CHR 0xC9"
definition e_circumflex :: char where "e_circumflex = CHR 0xEA"
definition apostrophe :: char where "apostrophe = CHR 0x27"

text \<open>\<open>str(n)\<close> for a non-negative integer, as the f-strings of the program format it.\<close>

definition digit_char :: "nat \<Rightarrow> char" where
  "digit_char d = char_of (48 + d)"

fun str_nat :: "nat \<Rightarrow> string" where
  "str_nat n = (if n < 10 then [digit_char n] else str_nat (n div 10) @ [digit_char (n mod 10)])"

declare str_nat.simps [simp del]

text \<open>
  \<open>s.lower()\<close> on code points below 256: the ASCII capitals and the Latin-1 capitals
  (0xC0 to 0xDE without the multiplication sign 0xD7) move up by 32.
\<close>

definition lower_char :: "char \<Rightarrow> char" where
  "lower_char c =
     (let k = (of_char c :: nat) in
      if (65 \<le> k \<and> k \<le> 90) \<or> (192 \<le> k \<and> k \<le> 222 \<and> k \<noteq> 215) then char_of (k + 32) else c)"

definition py_lower :: "string \<Rightarrow> string" where
  "py_lower s = map lower_char s"

section \<open>is_allowed\<close>

text \<open>
  \<^verbatim>\<open>
  def is_allowed(url, disallowed_fragments):
      return not any(fragment in url for fragment in disallowed_fragments)
  \<close>
  \<open>fragment in url\<close> is the substring test \<^const>\<open>sublist\<close>: \<open>url = ps @ fragment @ ss\<close> for
  some \<open>ps\<close> and \<open>ss\<close>, compared code point by code point.
\<close>

definition is_allowed :: "string \<Rightarrow> string list \<Rightarrow> bool" where
  "is_allowed url disallowed_fragments =
     (\<not> list_ex (\<lambda>fragment. sublist fragment url) disallowed_fragments)"

section \<open>Observable events\<close>

text \<open>
  Everything the program does to the outside is appended to a trace, in program order:
  network requests, log records, callback invocations, reads of the two shared
  \<open>threading.Event\<close> flags and sleeps. The number of events so far is the logical time at
  which the environment is asked (what a request returns, whether a flag is set).

  \<open>SitemapGet url k\<close> is the \<open>requests.get\<close> of \<open>get_sitemap_urls\<close>; \<open>k\<close> is
  \<open>len(collector.urls)\<close> at the moment of the request. The program keeps no such number:
  it is recorded so that the early-termination property can be stated on the trace.
\<close>

datatype level = INFO | WARNING | ERROR

datatype pyval = Str string | StrList "string list" | DictList "(string \<times> string) list list"

type_synonym dict = "(string \<times> pyval) list"

datatype event =
    SitemapGet string nat
  | PageGet string
  | PageRender string
  | Logging level string
  | LogCallback string
  | StopCheck bool
  | PauseCheck bool
  | PollSleep
  | DelaySleep real
  | ProgressCallback nat nat string
  | DataCallback dict

text \<open>\<open>if log_callback: log_callback(message)\<close>, the callback being supplied or not.\<close>

definition call_log :: "bool \<Rightarrow> string \<Rightarrow> event list" where
  "call_log log_callback message = (if log_callback then [LogCallback message] else [])"

section \<open>get_sitemap_urls\<close>

text \<open>
  The body of the \<open>try\<close> block, \<open>requests.get\<close> followed by \<open>raise_for_status\<close>, either raises
  a \<open>RequestException\<close> (a network error, or the HTTP error of a 4xx/5xx status), carried
  with its text, or yields the response: status code and parsed body.

  The parse of a sitemap body by BeautifulSoup is abstracted to what the function reads
  from it, in the order it looks: a \<open>sitemapindex\<close> element, with one entry per descendant
  whose name ends in "sitemap" (the stripped text of its first "loc" descendant, if it
  has one); otherwise a \<open>urlset\<close> element, with the stripped texts of its "loc"
  descendants; otherwise neither.
\<close>

datatype 'a fetch_result = RequestException string | Response nat 'a

datatype document =
    SitemapIndex "string option list"
  | UrlSet "string list"
  | Unrecognized

type_synonym web = "nat \<Rightarrow> string \<Rightarrow> document fetch_result"

record rstate =
  collector :: URLCollector
  trace :: "event list"

definition emit :: "event list \<Rightarrow> rstate \<Rightarrow> rstate" where
  "emit evs st = st\<lparr>trace := trace st @ evs\<rparr>"

text \<open>\<open>collector.limit > 0 and len(collector.urls) >= collector.limit\<close>\<close>

definition limit_reached :: "URLCollector \<Rightarrow> bool" where
  "limit_reached c = (0 < limit c \<and> limit c \<le> int (length (urls c)))"

text \<open>The messages of \<open>get_sitemap_urls\<close> and \<open>get_allowed_urls\<close>, as their f-strings build them.\<close>

definition msg_sitemap_error :: "string \<Rightarrow> string \<Rightarrow> string" where
  "msg_sitemap_error sitemap_url e =
     ''[ERREUR] Impossible de r'' @ [e_acute] @ ''cup'' @ [e_acute] @ ''rer ''
       @ [apostrophe] @ sitemap_url @ [apostrophe] @ '': '' @ e"

definition msg_sitemap_ok :: "string \<Rightarrow> nat \<Rightarrow> string" where
  "msg_sitemap_ok sitemap_url status =
     ''[OK] R'' @ [e_acute] @ ''cup'' @ [e_acute] @ ''ration sitemap: ''
       @ sitemap_url @ '' (status='' @ str_nat status @ '')''"

definition msg_sub_sitemap :: "string \<Rightarrow> string" where
  "msg_sub_sitemap sub_sitemap_url = ''[INFO] Traitement du sous-sitemap: '' @ sub_sitemap_url"

definition msg_added :: "nat \<Rightarrow> string \<Rightarrow> string" where
  "msg_added n sitemap_url =
     ''[INFO] Ajout de '' @ str_nat n @ '' URLs autoris'' @ [e_acute] @ ''es depuis '' @ sitemap_url"

definition msg_unrecognized :: "string \<Rightarrow> string" where
  "msg_unrecognized sitemap_url =
     ''[WARN] '' @ [apostrophe] @ sitemap_url @ [apostrophe]
       @ '' n'' @ [apostrophe] @ ''est pas un sitemapindex ni un urlset reconnu.''"

definition msg_single_url :: "string \<Rightarrow> string" where
  "msg_single_url u = ''[INFO] Ajout de l'' @ [apostrophe] @ ''URL unique: '' @ u"

text \<open>
  The recursion of \<open>get_sitemap_urls\<close> through sub-sitemaps need not end (a sitemap index
  may list itself), so the model takes fuel: the number of nested calls allowed. The
  result is the returned list, or \<open>None\<close> when the fuel ran out before the call returned,
  together with the state reached, so that the trace of a run that is cut off is still
  there. \<open>sitemap_loop\<close> is the \<open>for tag in sitemap_tags\<close> loop; its bool says whether it ran
  to its end (or its \<open>break\<close>).
\<close>

fun get_sitemap_urls ::
    "nat \<Rightarrow> web \<Rightarrow> string \<Rightarrow> string list \<Rightarrow> bool \<Rightarrow> rstate \<Rightarrow> string list option \<times> rstate"
  and sitemap_loop ::
    "nat \<Rightarrow> web \<Rightarrow> string option list \<Rightarrow> string list \<Rightarrow> bool \<Rightarrow> rstate \<Rightarrow> bool \<times> rstate"
where
  "get_sitemap_urls 0 w sitemap_url disallowed log_callback st = (None, st)"
| "get_sitemap_urls (Suc n) w sitemap_url disallowed log_callback st =
     (if limit_reached (collector st) then (Some (urls (collector st)), st)
      else
        let st1 = emit [SitemapGet sitemap_url (length (urls (collector st)))] st in
        case w (length (trace st)) sitemap_url of
          RequestException e \<Rightarrow>
            (let message = msg_sitemap_error sitemap_url e
             in (Some [], emit (Logging ERROR message # call_log log_callback message) st1))
        | Response status doc \<Rightarrow>
            (let message = msg_sitemap_ok sitemap_url status;
                 st2 = emit (Logging INFO message # call_log log_callback message) st1
             in case doc of
                  SitemapIndex sitemap_tags \<Rightarrow>
                    (case sitemap_loop n w sitemap_tags disallowed log_callback st2 of
                       (False, st3) \<Rightarrow> (None, st3)
                     | (True, st3) \<Rightarrow> (Some (urls (collector st3)), st3))
                | UrlSet locs \<Rightarrow>
                    (let allowed_urls = filter (\<lambda>u. is_allowed u disallowed) locs;
                         c = snd (add_urls (collector st2) allowed_urls);
                         st3 = emit (call_log log_callback
                                       (msg_added (length allowed_urls) sitemap_url))
                                 (st2\<lparr>collector := c\<rparr>)
                     in (Some (urls (collector st3)), st3))
                | Unrecognized \<Rightarrow>
                    (let message = msg_unrecognized sitemap_url
                     in (Some (urls (collector st2)),
                         emit (Logging WARNING message # call_log log_callback message) st2))))"
| "sitemap_loop n w [] disallowed log_callback st = (True, st)"
| "sitemap_loop n w (tag # tags) disallowed log_callback st =
     (if limit_reached (collector st) then (True, st)
      else case tag of
          None \<Rightarrow> sitemap_loop n w tags disallowed log_callback st
        | Some sub_sitemap_url \<Rightarrow>
            (case get_sitemap_urls n w sub_sitemap_url disallowed log_callback
                    (emit (call_log log_callback (msg_sub_sitemap sub_sitemap_url)) st) of
               (None, st') \<Rightarrow> (False, st')
             | (Some _, st') \<Rightarrow> sitemap_loop n w tags disallowed log_callback st'))"

text \<open>The sizes recorded with the sitemap requests of a trace, in order.\<close>

definition fetch_sizes :: "event list \<Rightarrow> nat list" where
  "fetch_sizes tr = [k. SitemapGet u k \<leftarrow> tr]"

section \<open>get_allowed_urls\<close>

text \<open>
  \<^verbatim>\<open>
  collector = URLCollector(limit)
  if ".xml" in sitemap_or_url.lower():
      get_sitemap_urls(sitemap_or_url, collector, disallowed, log_callback)
  else:
      if is_allowed(sitemap_or_url, disallowed):
          collector.add_urls([sitemap_or_url])
          if log_callback: log_callback(...)
  return collector.urls
  \<close>
  The value returned by \<open>get_sitemap_urls\<close> is dropped; the collector's list is returned.
\<close>

definition get_allowed_urls ::
    "nat \<Rightarrow> web \<Rightarrow> string \<Rightarrow> string list \<Rightarrow> int \<Rightarrow> bool \<Rightarrow> string list option \<times> event list" where
  "get_allowed_urls fuel w sitemap_or_url disallowed lmt log_callback =
     (let st = \<lparr>collector = URLCollector_init lmt, trace = []\<rparr> in
      if sublist ''.xml'' (py_lower sitemap_or_url) then
        (case get_sitemap_urls fuel w sitemap_or_url disallowed log_callback st of
           (None, st') \<Rightarrow> (None, trace st')
         | (Some _, st') \<Rightarrow> (Some (urls (collector st')), trace st'))
      else if is_allowed sitemap_or_url disallowed then
        (let c = snd (add_urls (collector st) [sitemap_or_url])
         in (Some (urls c),
             call_log log_callback (msg_single_url sitemap_or_url)))
      else (Some (urls (collector st)), trace st))"

section \<open>scrape_content\<close>

text \<open>
  What \<open>scrape_content\<close> reads from the parsed page, in document order: the stripped texts
  of the headings h1 to h6 and of the paragraphs, the \<open>img\<close> elements that have a \<open>src\<close>
  (with their \<open>alt\<close> attribute, if any), and the \<open>content\<close> attribute of the first
  description, keywords and og:title \<open>meta\<close> element (if the element is there and has one).
\<close>

record page =
  headings_text :: "string list"
  paragraphs_text :: "string list"
  images_src_alt :: "(string \<times> string option) list"
  desc_content :: "string option"
  keywords_content :: "string option"
  og_title_content :: "string option"

text \<open>
  The environment of one call. The two flags are shared with other threads, so what
  \<open>is_set()\<close> returns depends on when it is asked: on the number of events so far. The
  plain request raises a \<open>RequestException\<close> or yields status and page; the Playwright
  block raises any exception (its text on the left) or yields the rendered page.
  \<open>random.uniform\<close>, the \<open>.2f\<close> format of a float and \<open>urljoin\<close> are library functions taken
  as they are.
\<close>

record env =
  stop_event :: "nat \<Rightarrow> bool"
  pause_event :: "nat \<Rightarrow> bool"
  requests_get :: "nat \<Rightarrow> string \<Rightarrow> page fetch_result"
  playwright :: "nat \<Rightarrow> string \<Rightarrow> string + page"
  random_uniform :: "nat \<Rightarrow> real \<Rightarrow> real \<Rightarrow> real"
  format_2f :: "real \<Rightarrow> string"
  urljoin :: "string \<Rightarrow> string \<Rightarrow> string"

definition msg_js_ok :: "string \<Rightarrow> string" where
  "msg_js_ok url = ''[OK] Scraping (JS) de: '' @ url"

definition msg_js_error :: "string \<Rightarrow> string \<Rightarrow> string" where
  "msg_js_error url e =
     ''[ERREUR] Playwright a '' @ [e_acute] @ ''chou'' @ [e_acute] @ '' pour '' @ url @ '': '' @ e"

definition msg_page_ok :: "string \<Rightarrow> nat \<Rightarrow> string" where
  "msg_page_ok url status =
     ''[OK] Scraping de: '' @ url @ '' (status='' @ str_nat status @ '')''"

definition msg_page_error :: "string \<Rightarrow> string \<Rightarrow> string" where
  "msg_page_error url e =
     ''[ERREUR] '' @ [E_acute] @ ''chec requ'' @ [e_circumflex] @ ''te: '' @ url @ '' -> '' @ e"

definition msg_delay :: "env \<Rightarrow> real \<Rightarrow> string" where
  "msg_delay env delay =
     ''[INFO] Pause de '' @ format_2f env delay @ '' secondes avant la prochaine requ''
       @ [e_circumflex] @ ''te.''"

text \<open>
  \<^verbatim>\<open>
  while pause_event.is_set():
      time.sleep(0.2)
      if stop_event.is_set():
          return {}
  \<close>
  The loop need not end (a pause that is never lifted, with no stop): \<open>None\<close> is the run
  that never leaves it. The bool of a result says whether the loop left through the
  \<open>return {}\<close>.
\<close>

partial_function (option) wait_while_paused :: "env \<Rightarrow> event list \<Rightarrow> (bool \<times> event list) option"
where
  "wait_while_paused env tr =
     (if pause_event env (length tr) then
        (if stop_event env (length (tr @ [PauseCheck True, PollSleep]))
         then Some (True, tr @ [PauseCheck True, PollSleep, StopCheck True])
         else wait_while_paused env (tr @ [PauseCheck True, PollSleep, StopCheck False]))
      else Some (False, tr @ [PauseCheck False]))"

declare wait_while_paused.simps [code]

text \<open>
  The fetch, by Playwright when \<open>js_enabled\<close> and by \<open>requests.get\<close> otherwise, with its log
  record and callback: the page, or \<open>None\<close> where the source returns \<open>{}\<close> from its
  \<open>except\<close> branch.
\<close>

definition fetch_page :: "env \<Rightarrow> string \<Rightarrow> bool \<Rightarrow> bool \<Rightarrow> event list \<Rightarrow> page option \<times> event list"
where
  "fetch_page env url log_callback js_enabled tr =
     (if js_enabled then
        (case playwright env (length tr) url of
           Inr content \<Rightarrow>
             (Some content,
              tr @ PageRender url # Logging INFO (msg_js_ok url) # call_log log_callback (msg_js_ok url))
         | Inl e \<Rightarrow>
             (None,
              tr @ PageRender url # Logging ERROR (msg_js_error url e)
                 # call_log log_callback (msg_js_error url e)))
      else
        (case requests_get env (length tr) url of
           Response status content \<Rightarrow>
             (Some content,
              tr @ PageGet url # Logging INFO (msg_page_ok url status)
                 # call_log log_callback (msg_page_ok url status))
         | RequestException e \<Rightarrow>
             (None,
              tr @ PageGet url # Logging ERROR (msg_page_error url e)
                 # call_log log_callback (msg_page_error url e))))"

text \<open>The dict built from the page: the seven keys of the source, in its order.\<close>

definition content_or_empty :: "string option \<Rightarrow> string" where
  "content_or_empty c = (case c of None \<Rightarrow> [] | Some v \<Rightarrow> v)"

definition extract_record :: "env \<Rightarrow> string \<Rightarrow> page \<Rightarrow> dict" where
  "extract_record env url soup =
     [(''url'', Str url),
      (''headings'', StrList (headings_text soup)),
      (''paragraphs'', StrList (filter (\<lambda>t. t \<noteq> []) (paragraphs_text soup))),
      (''images'', DictList (map (\<lambda>(src, alt). [(''src'', urljoin env url src),
                                                  (''alt'', content_or_empty alt)])
                               (images_src_alt soup))),
      (''meta_description'', Str (content_or_empty (desc_content soup))),
      (''meta_keywords'', Str (content_or_empty (keywords_content soup))),
      (''meta_og_title'', Str (content_or_empty (og_title_content soup)))]"

text \<open>
  \<open>scrape_content\<close>: the stop check, the pause loop, the fetch, the extraction, the second
  stop check and pause loop, the random delay. The empty dict \<open>{}\<close> is \<open>[]\<close>. The result is
  \<open>None\<close> when either pause loop never ends.
\<close>

definition scrape_content ::
    "env \<Rightarrow> string \<Rightarrow> real \<Rightarrow> real \<Rightarrow> bool \<Rightarrow> bool \<Rightarrow> event list \<Rightarrow> (dict \<times> event list) option"
where
  "scrape_content env url min_delay max_delay log_callback js_enabled tr =
     (if stop_event env (length tr) then Some ([], tr @ [StopCheck True])
      else case wait_while_paused env (tr @ [StopCheck False]) of
          None \<Rightarrow> None
        | Some (True, tr1) \<Rightarrow> Some ([], tr1)
        | Some (False, tr1) \<Rightarrow>
            (case fetch_page env url log_callback js_enabled tr1 of
               (None, tr2) \<Rightarrow> Some ([], tr2)
             | (Some soup, tr2) \<Rightarrow>
                 (if stop_event env (length tr2) then Some ([], tr2 @ [StopCheck True])
                  else case wait_while_paused env (tr2 @ [StopCheck False]) of
                      None \<Rightarrow> None
                    | Some (True, tr3) \<Rightarrow> Some ([], tr3)
                    | Some (False, tr3) \<Rightarrow>
                        (let delay = random_uniform env (length tr3) min_delay max_delay
                         in Some (extract_record env url soup,
                                  tr3 @ call_log log_callback (msg_delay env delay)
                                      @ [DelaySleep delay])))))"

text \<open>The network calls and the politeness delays of a trace, in order.\<close>

definition is_network_call :: "event \<Rightarrow> bool" where
  "is_network_call e =
     (case e of SitemapGet u k \<Rightarrow> True | PageGet u \<Rightarrow> True | PageRender u \<Rightarrow> True | _ \<Rightarrow> False)"

definition network_calls :: "event list \<Rightarrow> event list" where
  "network_calls tr = filter is_network_call tr"

definition delays :: "event list \<Rightarrow> real list" where
  "delays tr = [x. DelaySleep x \<leftarrow> tr]"

section \<open>scrape_all_urls\<close>

text \<open>
  The worker threads run \<open>scrape_content\<close> concurrently; \<open>as_completed\<close> hands their futures
  to the single consuming loop in the order they finish. That order, what each future
  holds (the returned dict, or the exception its \<open>result()\<close> raises) and whether
  \<open>stop_event\<close> is set at the moment the loop looks at it are given to the model as the
  list of completions: the loop itself is sequential. Each submitted future is yielded
  once, so the URLs of the completions are those of \<open>urls\<close> in some order. The trace here
  is that of the consuming thread only.
\<close>

datatype task_result = Returned dict | Raised string

record completion =
  task_url :: string
  task_result :: task_result
  stop_is_set :: bool

datatype py_error = ValueError string

definition msg_ok :: "nat \<Rightarrow> nat \<Rightarrow> string \<Rightarrow> string" where
  "msg_ok i n_total url = ''['' @ str_nat i @ ''/'' @ str_nat n_total @ ''] OK: '' @ url"

definition msg_failed :: "nat \<Rightarrow> nat \<Rightarrow> string \<Rightarrow> string" where
  "msg_failed i n_total url =
     ''['' @ str_nat i @ ''/'' @ str_nat n_total @ ''] '' @ [E_acute] @ ''chec ou annul''
       @ [e_acute] @ '': '' @ url"

definition msg_exception :: "nat \<Rightarrow> nat \<Rightarrow> string \<Rightarrow> string \<Rightarrow> string" where
  "msg_exception i n_total url exc =
     ''['' @ str_nat i @ ''/'' @ str_nat n_total @ ''] Exception pour '' @ url @ '': '' @ exc"

text \<open>
  \<^verbatim>\<open>
  logging.info(msg)
  if progress_callback: progress_callback(i, total, msg)
  if log_callback: log_callback(msg)
  \<close>
\<close>

definition emit_status :: "bool \<Rightarrow> bool \<Rightarrow> nat \<Rightarrow> nat \<Rightarrow> string \<Rightarrow> event list" where
  "emit_status progress_callback log_callback i n_total msg =
     Logging INFO msg
       # (if progress_callback then [ProgressCallback i n_total msg] else [])
       @ call_log log_callback msg"

text \<open>
  The \<open>for i, future in enumerate(as_completed(...), start=1)\<close> loop, with the result list
  and the trace it has built so far. \<open>if data:\<close> is the test for a non-empty dict.
\<close>

fun consume ::
    "bool \<Rightarrow> bool \<Rightarrow> bool \<Rightarrow> nat \<Rightarrow> nat \<Rightarrow> completion list \<Rightarrow> dict list \<Rightarrow> event list
      \<Rightarrow> dict list \<times> event list"
where
  "consume progress_callback log_callback data_callback n_total i [] results tr = (results, tr)"
| "consume progress_callback log_callback data_callback n_total i (c # cs) results tr =
     (if stop_is_set c then (results, tr)
      else
        (case task_result c of
           Returned data \<Rightarrow>
             (if data \<noteq> [] then
                consume progress_callback log_callback data_callback n_total (Suc i) cs
                  (results @ [data])
                  (tr @ (if data_callback then [DataCallback data] else [])
                      @ emit_status progress_callback log_callback i n_total
                          (msg_ok i n_total (task_url c)))
              else
                consume progress_callback log_callback data_callback n_total (Suc i) cs results
                  (tr @ emit_status progress_callback log_callback i n_total
                          (msg_failed i n_total (task_url c))))
         | Raised exc \<Rightarrow>
             consume progress_callback log_callback data_callback n_total (Suc i) cs results
               (tr @ emit_status progress_callback log_callback i n_total
                       (msg_exception i n_total (task_url c) exc))))"

text \<open>
  \<open>scrape_all_urls\<close>: nothing is done for an empty list; \<open>ThreadPoolExecutor\<close> raises
  \<open>ValueError\<close> for \<open>max_workers <= 0\<close>; otherwise the loop runs from \<open>i = 1\<close>. The delays, the
  two events and \<open>js_enabled\<close> are only handed on to the tasks.
\<close>

definition scrape_all_urls ::
    "string list \<Rightarrow> int \<Rightarrow> bool \<Rightarrow> bool \<Rightarrow> bool \<Rightarrow> completion list
      \<Rightarrow> py_error + dict list \<times> event list"
where
  "scrape_all_urls url_list workers progress_callback log_callback data_callback completed =
     (let n_total = length url_list in
      if n_total = 0 then Inr ([], [])
      else if workers \<le> 0 then Inl (ValueError ''max_workers must be greater than 0'')
      else Inr (consume progress_callback log_callback data_callback n_total 1 completed [] []))"

text \<open>The progress notifications of a trace, in order.\<close>

definition progress_calls :: "event list \<Rightarrow> (nat \<times> nat \<times> string) list" where
  "progress_calls tr = [(i, n_total, msg). ProgressCallback i n_total msg \<leftarrow> tr]"

section \<open>Auxiliary definitions for the proofs\<close>

text \<open>
  What one call of \<open>get_sitemap_urls\<close> (or a run of its loop) may do to the state: the limit
  stays, URLs are only appended and every appended URL passed \<open>is_allowed\<close>, events are
  only appended, and with a positive limit every sitemap request is recorded with a
  collector size below the limit.
\<close>

definition extends :: "string list \<Rightarrow> rstate \<Rightarrow> rstate \<Rightarrow> bool" where
  "extends d st st' \<longleftrightarrow>
     limit (collector st') = limit (collector st)
   \<and> (\<exists>new. urls (collector st') = urls (collector st) @ new \<and> (\<forall>u\<in>set new. is_allowed u d))
   \<and> (\<exists>evs. trace st' = trace st @ evs
          \<and> (0 < limit (collector st) \<longrightarrow>
               (\<forall>k\<in>set (fetch_sizes evs). int k < limit (collector st))))"

text \<open>A small web for the examples: an index of four sitemaps, one of them unreachable.\<close>

definition example_web :: web where
  "example_web t u =
     (if u = ''i.xml'' then
        Response 200 (SitemapIndex [Some ''a.xml'', None, Some ''bad.xml'', Some ''b.xml'', Some ''c.xml''])
      else if u = ''a.xml'' then Response 200 (UrlSet [''a1'', ''a2/private'', ''a3''])
      else if u = ''b.xml'' then Response 200 (UrlSet [''b1'', ''b2'', ''b3''])
      else if u = ''c.xml'' then Response 200 (UrlSet [''c1''])
      else RequestException ''404'')"

text \<open>
  The loop of \<open>scrape_all_urls\<close> in closed form: the completions it handles are those before
  the first one observed with \<open>stop_event\<close> set; each of them adds at most one record and one
  block of events.
\<close>

definition observed :: "completion list \<Rightarrow> completion list" where
  "observed cs = takeWhile (\<lambda>c. \<not> stop_is_set c) cs"

definition succeeded :: "completion \<Rightarrow> bool" where
  "succeeded c = (case task_result c of Returned data \<Rightarrow> data \<noteq> [] | Raised exc \<Rightarrow> False)"

definition records :: "completion list \<Rightarrow> dict list" where
  "records cs =
     concat (map (\<lambda>c. case task_result c of
                         Returned data \<Rightarrow> if data \<noteq> [] then [data] else []
                       | Raised exc \<Rightarrow> []) cs)"

definition status_msg :: "nat \<Rightarrow> nat \<Rightarrow> completion \<Rightarrow> string" where
  "status_msg n_total i c =
     (case task_result c of
        Returned data \<Rightarrow>
          if data \<noteq> [] then msg_ok i n_total (task_url c) else msg_failed i n_total (task_url c)
      | Raised exc \<Rightarrow> msg_exception i n_total (task_url c) exc)"

definition completion_events :: "bool \<Rightarrow> bool \<Rightarrow> bool \<Rightarrow> nat \<Rightarrow> nat \<Rightarrow> completion \<Rightarrow> event list"
where
  "completion_events progress_callback log_callback data_callback n_total i c =
     (case task_result c of
        Returned data \<Rightarrow> if data \<noteq> [] \<and> data_callback then [DataCallback data] else []
      | Raised exc \<Rightarrow> [])
     @ emit_status progress_callback log_callback i n_total (status_msg n_total i c)"

text \<open>The INFO records and the log-callback messages of a trace, in order.\<close>

definition info_log :: "event list \<Rightarrow> string list" where
  "info_log tr = [m. Logging INFO m \<leftarrow> tr]"

definition log_calls :: "event list \<Rightarrow> string list" where
  "log_calls tr = [m. LogCallback m \<leftarrow> tr]"

text \<open>Two completions for the examples: the second URL finishes first, with an empty result.\<close>

definition example_completed :: "completion list" where
  "example_completed =
     [\<lparr>task_url = ''v'', task_result = Returned [], stop_is_set = False\<rparr>,
      \<lparr>task_url = ''u'', task_result = Returned [(''url'', Str ''u'')], stop_is_set = False\<rparr>]"

text \<open>
  Two completions where the flag is seen set at the first: the loop breaks at once and the
  second, successful, task is never looked at.
\<close>

definition example_stopped :: "completion list" where
  "example_stopped =
     [\<lparr>task_url = ''u'', task_result = Returned [(''url'', Str ''u'')], stop_is_set = True\<rparr>,
      \<lparr>task_url = ''v'', task_result = Returned [(''url'', Str ''v'')], stop_is_set = False\<rparr>]"

text \<open>A page and an environment for the examples: the pause is lifted at time 3.\<close>

definition example_page :: page where
  "example_page =
     \<lparr>headings_text = [''T''], paragraphs_text = [''p1'', [], ''p2''],
      images_src_alt = [(''a.png'', None)], desc_content = Some ''d'',
      keywords_content = None, og_title_content = None\<rparr>"

definition example_env :: "bool \<Rightarrow> env" where
  "example_env stopped =
     \<lparr>stop_event = (\<lambda>t. stopped), pause_event = (\<lambda>t. t < 3),
      requests_get = (\<lambda>t u. if u = ''ok'' then Response 200 example_page
                              else RequestException ''404''),
      playwright = (\<lambda>t u. Inl ''no browser''),
      random_uniform = (\<lambda>t a b. (a + b) / 2), format_2f = (\<lambda>x. ''2.00''),
      urljoin = (\<lambda>b r. b @ ''/'' @ r)\<rparr>"

section \<open>Properties of the collector\<close>

lemma add_urls_limit [simp]: "limit (snd (add_urls c xs)) = limit c"
  by (simp add: add_urls_def Let_def)

lemma add_urls_seq_limit [simp]: "limit (add_urls_seq c calls) = limit c"
  by (induction calls arbitrary: c) simp_all

lemma add_urls_bounded:
  assumes "0 < limit c" and "int (length (urls c)) \<le> limit c"
  shows "int (length (urls (snd (add_urls c xs)))) \<le> limit c"
  using assms by (auto simp: add_urls_def Let_def py_slice_to_def)

lemma add_urls_seq_bounded:
  "0 < limit c \<Longrightarrow> int (length (urls c)) \<le> limit c
   \<Longrightarrow> int (length (urls (add_urls_seq c calls))) \<le> limit c"
proof (induction calls arbitrary: c)
  case Nil
  then show ?case by simp
next
  case (Cons xs calls)
  have "int (length (urls (snd (add_urls c xs)))) \<le> limit (snd (add_urls c xs))"
    using Cons.prems add_urls_bounded [of c xs] by simp
  with Cons.IH [of "snd (add_urls c xs)"] Cons.prems show ?case by simp
qed

lemma add_urls_full:
  "0 < limit c \<Longrightarrow> int (length (urls c)) = limit c \<Longrightarrow> add_urls c xs = (False, c)"
  by (simp add: add_urls_def)

lemma add_urls_seq_full:
  "0 < limit c \<Longrightarrow> int (length (urls c)) = limit c \<Longrightarrow> add_urls_seq c calls = c"
  by (induction calls) (simp_all add: add_urls_full)

text \<open>
  C1. For every limit > 0 and every sequence of \<open>add_urls\<close> calls on a collector created
  with that limit, the number of collected URLs never exceeds the limit (the sequence is
  arbitrary, so this holds after every call), and once the number equals the limit every
  further call, and every further sequence of calls, leaves the collector unchanged and
  returns False ("stop").
\<close>

theorem C1_limit_invariant:
  assumes "0 < lmt"
  shows "int (length (urls (add_urls_seq (URLCollector_init lmt) calls))) \<le> lmt
       \<and> (int (length (urls (add_urls_seq (URLCollector_init lmt) calls))) = lmt \<longrightarrow>
            add_urls (add_urls_seq (URLCollector_init lmt) calls) xs
              = (False, add_urls_seq (URLCollector_init lmt) calls)
          \<and> add_urls_seq (add_urls_seq (URLCollector_init lmt) calls) later
              = add_urls_seq (URLCollector_init lmt) calls)"
proof -
  let ?c = "add_urls_seq (URLCollector_init lmt) calls"
  have lim_c: "limit ?c = lmt" by (simp add: URLCollector_init_def)
  have bound: "int (length (urls ?c)) \<le> lmt"
    using add_urls_seq_bounded [of "URLCollector_init lmt" calls] assms
    by (simp add: URLCollector_init_def)
  have stop: "add_urls ?c xs = (False, ?c)" if "int (length (urls ?c)) = lmt"
    using add_urls_full [of ?c xs] that assms lim_c by simp
  have fixed: "add_urls_seq ?c later = ?c" if "int (length (urls ?c)) = lmt"
    using add_urls_seq_full [of ?c later] that assms lim_c by simp
  from bound stop fixed show ?thesis by blast
qed

theorem C1_limit_invariant_witness:
  "(0::int) < 2
   \<and> urls (add_urls_seq (URLCollector_init 2) [[''a''], [''b'', ''c'']]) = [''a'', ''b'']
   \<and> add_urls (add_urls_seq (URLCollector_init 2) [[''a''], [''b'', ''c'']]) [''d'']
        = (False, add_urls_seq (URLCollector_init 2) [[''a''], [''b'', ''c'']])"
proof -
  have u: "urls (add_urls_seq (URLCollector_init 2) [[''a''], [''b'', ''c'']]) = [''a'', ''b'']"
    by (simp add: URLCollector_init_def add_urls_def py_slice_to_def)
  have "(0::int) < 2" by simp
  from C1_limit_invariant [OF this, of "[[''a''], [''b'', ''c'']]" "[''d'']" "[]"] u
  show ?thesis by simp
qed

text \<open>
  C2. One \<open>add_urls\<close> call follows the four cases of the reference definition: with
  limit <= 0 everything is appended and the result is True; otherwise, with
  remaining = limit - len(urls), nothing is appended and the result is False when
  remaining <= 0; exactly the first \<open>remaining\<close> elements are appended, in their order,
  and the result is False when len(new_urls) > remaining; and everything is appended and
  the result is True in the last case.
\<close>

theorem C2_add_urls_cases:
  "(limit c \<le> 0 \<longrightarrow> add_urls c xs = (True, c\<lparr>urls := urls c @ xs\<rparr>))
 \<and> (0 < limit c \<and> limit c - int (length (urls c)) \<le> 0 \<longrightarrow> add_urls c xs = (False, c))
 \<and> (0 < limit c \<and> 0 < limit c - int (length (urls c))
      \<and> limit c - int (length (urls c)) < int (length xs) \<longrightarrow>
        add_urls c xs
          = (False, c\<lparr>urls := urls c @ take (nat (limit c - int (length (urls c)))) xs\<rparr>)
        \<and> length (take (nat (limit c - int (length (urls c)))) xs)
          = nat (limit c - int (length (urls c))))
 \<and> (0 < limit c \<and> 0 < limit c - int (length (urls c))
      \<and> int (length xs) \<le> limit c - int (length (urls c)) \<longrightarrow>
        add_urls c xs = (True, c\<lparr>urls := urls c @ xs\<rparr>))"
  by (auto simp: add_urls_def Let_def py_slice_to_def)

theorem C2_add_urls_cases_witness:
  "add_urls \<lparr>limit = 0, urls = [''a'']\<rparr> [''b'', ''c'']
     = (True, \<lparr>limit = 0, urls = [''a'', ''b'', ''c'']\<rparr>)
 \<and> add_urls \<lparr>limit = 1, urls = [''a'']\<rparr> [''b'', ''c''] = (False, \<lparr>limit = 1, urls = [''a'']\<rparr>)
 \<and> add_urls \<lparr>limit = 2, urls = [''a'']\<rparr> [''b'', ''c'']
     = (False, \<lparr>limit = 2, urls = [''a'', ''b'']\<rparr>)
 \<and> add_urls \<lparr>limit = 3, urls = [''a'']\<rparr> [''b'', ''c'']
     = (True, \<lparr>limit = 3, urls = [''a'', ''b'', ''c'']\<rparr>)"
  using C2_add_urls_cases [of "\<lparr>limit = 0, urls = [''a'']\<rparr>" "[''b'', ''c'']"]
        C2_add_urls_cases [of "\<lparr>limit = 1, urls = [''a'']\<rparr>" "[''b'', ''c'']"]
        C2_add_urls_cases [of "\<lparr>limit = 2, urls = [''a'']\<rparr>" "[''b'', ''c'']"]
        C2_add_urls_cases [of "\<lparr>limit = 3, urls = [''a'']\<rparr>" "[''b'', ''c'']"]
  by simp

section \<open>Properties of sitemap resolution\<close>

lemma fetch_sizes_append [simp]: "fetch_sizes (a @ b) = fetch_sizes a @ fetch_sizes b"
  by (simp add: fetch_sizes_def)

lemma fetch_sizes_simps [simp]:
  "fetch_sizes [] = []"
  "fetch_sizes (SitemapGet u k # tr) = k # fetch_sizes tr"
  "fetch_sizes (Logging lv m # tr) = fetch_sizes tr"
  "fetch_sizes (LogCallback m # tr) = fetch_sizes tr"
  by (simp_all add: fetch_sizes_def)

lemma fetch_sizes_call_log [simp]: "fetch_sizes (call_log l m) = []"
  by (simp add: call_log_def)

lemma add_urls_appends:
  "\<exists>new. urls (snd (add_urls c xs)) = urls c @ new \<and> set new \<subseteq> set xs"
  by (auto simp: add_urls_def Let_def py_slice_to_def dest: in_set_takeD)

lemma get_sitemap_urls_full:
  "limit_reached (collector st) \<Longrightarrow>
     get_sitemap_urls (Suc n) w u d l st = (Some (urls (collector st)), st)"
  by simp

lemma sitemap_loop_full:
  "limit_reached (collector st) \<Longrightarrow> sitemap_loop n w tags d l st = (True, st)"
  by (cases tags) simp_all

lemma extends_refl [simp]: "extends d st st"
  by (simp add: extends_def)

lemma extends_trans: "extends d a b \<Longrightarrow> extends d b c \<Longrightarrow> extends d a c"
  unfolding extends_def by (elim conjE exE) (simp, fastforce)

lemma extends_emit_quiet:
  "fetch_sizes evs = [] \<Longrightarrow> extends d st (emit evs st)"
  by (simp add: extends_def emit_def)

lemma extends_fetch:
  "\<not> limit_reached (collector st) \<Longrightarrow>
     extends d st (emit [SitemapGet u (length (urls (collector st)))] st)"
  by (auto simp: extends_def emit_def limit_reached_def)

lemma extends_add:
  "extends d st (st\<lparr>collector := snd (add_urls (collector st) (filter (\<lambda>u. is_allowed u d) locs))\<rparr>)"
proof -
  obtain new where "urls (snd (add_urls (collector st) (filter (\<lambda>u. is_allowed u d) locs)))
      = urls (collector st) @ new" and "set new \<subseteq> set (filter (\<lambda>u. is_allowed u d) locs)"
    using add_urls_appends by blast
  then show ?thesis by (auto simp: extends_def)
qed

text \<open>The four ways a call that reaches the request goes on.\<close>

lemma get_sitemap_urls_error:
  assumes "\<not> limit_reached (collector st)" and "w (length (trace st)) u = RequestException e"
  shows "get_sitemap_urls (Suc n) w u d l st =
     (Some [], emit (SitemapGet u (length (urls (collector st)))
                     # Logging ERROR (msg_sitemap_error u e) # call_log l (msg_sitemap_error u e)) st)"
  using assms by (simp add: emit_def Let_def)

lemma get_sitemap_urls_urlset:
  assumes "\<not> limit_reached (collector st)"
    and "w (length (trace st)) u = Response status (UrlSet locs)"
  shows "snd (get_sitemap_urls (Suc n) w u d l st) =
     emit (call_log l (msg_added (length (filter (\<lambda>u. is_allowed u d) locs)) u))
       ((emit (SitemapGet u (length (urls (collector st)))
               # Logging INFO (msg_sitemap_ok u status) # call_log l (msg_sitemap_ok u status)) st)
          \<lparr>collector := snd (add_urls (collector st) (filter (\<lambda>u. is_allowed u d) locs))\<rparr>)"
    and "fst (get_sitemap_urls (Suc n) w u d l st) =
     Some (urls (snd (add_urls (collector st) (filter (\<lambda>u. is_allowed u d) locs))))"
  using assms by (simp_all add: emit_def Let_def)

lemma get_sitemap_urls_unrecognized:
  assumes "\<not> limit_reached (collector st)"
    and "w (length (trace st)) u = Response status Unrecognized"
  shows "get_sitemap_urls (Suc n) w u d l st =
     (Some (urls (collector st)),
      emit (SitemapGet u (length (urls (collector st)))
            # Logging INFO (msg_sitemap_ok u status) # call_log l (msg_sitemap_ok u status)
            @ Logging WARNING (msg_unrecognized u) # call_log l (msg_unrecognized u)) st)"
  using assms by (simp add: emit_def Let_def)

lemma get_sitemap_urls_index:
  assumes "\<not> limit_reached (collector st)"
    and "w (length (trace st)) u = Response status (SitemapIndex tags)"
  shows "snd (get_sitemap_urls (Suc n) w u d l st) =
     snd (sitemap_loop n w tags d l
       (emit (SitemapGet u (length (urls (collector st)))
               # Logging INFO (msg_sitemap_ok u status) # call_log l (msg_sitemap_ok u status)) st))"
  using assms by (simp add: emit_def Let_def split: prod.splits bool.splits)


lemma resolver_extends:
  "extends d st (snd (get_sitemap_urls n w u d l st))"
  "extends d st (snd (sitemap_loop n w tags d l st))"
proof (induction n w u d l st and n w tags d l st rule: get_sitemap_urls_sitemap_loop.induct)
  case (1 w sitemap_url disallowed log_callback st)
  show ?case by simp
next
  case (2 n w sitemap_url disallowed log_callback st)
  show ?case
  proof (cases "limit_reached (collector st)")
    case True
    then show ?thesis by simp
  next
    case False
    let ?k = "length (urls (collector st))"
    show ?thesis
    proof (cases "w (length (trace st)) sitemap_url")
      case (RequestException e)
      have "extends disallowed st (emit [SitemapGet sitemap_url ?k] st)"
        using False by (rule extends_fetch)
      moreover have "extends disallowed (emit [SitemapGet sitemap_url ?k] st)
         (emit (Logging ERROR (msg_sitemap_error sitemap_url e)
                # call_log log_callback (msg_sitemap_error sitemap_url e))
            (emit [SitemapGet sitemap_url ?k] st))"
        by (rule extends_emit_quiet) simp
      ultimately show ?thesis
        using get_sitemap_urls_error [where w = w and st = st and u = sitemap_url, OF False RequestException]
        by (auto simp: emit_def dest: extends_trans)
    next
      case (Response status doc)
      let ?m = "msg_sitemap_ok sitemap_url status"
      let ?st1 = "emit [SitemapGet sitemap_url ?k] st"
      let ?st2 = "emit (Logging INFO ?m # call_log log_callback ?m) ?st1"
      have e1: "extends disallowed st ?st1"
        using False by (rule extends_fetch)
      have "extends disallowed ?st1 ?st2"
        by (rule extends_emit_quiet) simp
      with e1 have e2: "extends disallowed st ?st2" by (rule extends_trans)
      have st2: "?st2 = emit (SitemapGet sitemap_url ?k # Logging INFO ?m # call_log log_callback ?m) st"
        by (simp add: emit_def)
      show ?thesis
      proof (cases doc)
        case (SitemapIndex tags)
        have "extends disallowed ?st2 (snd (sitemap_loop n w tags disallowed log_callback ?st2))"
          using "2.IH" [OF False refl Response refl refl SitemapIndex] .
        with e2 have "extends disallowed st (snd (sitemap_loop n w tags disallowed log_callback ?st2))"
          by (rule extends_trans)
        then show ?thesis
          using get_sitemap_urls_index [where w = w and st = st and u = sitemap_url, OF False Response [unfolded SitemapIndex]] st2 by simp
      next
        case (UrlSet locs)
        let ?a = "filter (\<lambda>u. is_allowed u disallowed) locs"
        let ?st3 = "?st2\<lparr>collector := snd (add_urls (collector ?st2) ?a)\<rparr>"
        have "extends disallowed ?st2 ?st3" by (rule extends_add)
        with e2 have e3: "extends disallowed st ?st3" by (rule extends_trans)
        have "extends disallowed ?st3 (emit (call_log log_callback (msg_added (length ?a) sitemap_url)) ?st3)"
          by (rule extends_emit_quiet) simp
        with e3 have "extends disallowed st (emit (call_log log_callback (msg_added (length ?a) sitemap_url)) ?st3)"
          by (rule extends_trans)
        then show ?thesis
          using get_sitemap_urls_urlset(1) [where w = w and st = st and u = sitemap_url, OF False Response [unfolded UrlSet]]
          by (simp add: emit_def)
      next
        case Unrecognized
        have "extends disallowed ?st2
           (emit (Logging WARNING (msg_unrecognized sitemap_url)
                  # call_log log_callback (msg_unrecognized sitemap_url)) ?st2)"
          by (rule extends_emit_quiet) simp
        with e2 have "extends disallowed st
           (emit (Logging WARNING (msg_unrecognized sitemap_url)
                  # call_log log_callback (msg_unrecognized sitemap_url)) ?st2)"
          by (rule extends_trans)
        then show ?thesis
          using get_sitemap_urls_unrecognized [where w = w and st = st and u = sitemap_url, OF False Response [unfolded Unrecognized]]
          by (simp add: emit_def)
      qed
    qed
  qed
next
  case (3 n w disallowed log_callback st)
  show ?case by simp
next
  case (4 n w tag tags disallowed log_callback st)
  show ?case
  proof (cases "limit_reached (collector st)")
    case True
    then show ?thesis by simp
  next
    case False
    show ?thesis
    proof (cases tag)
      case None
      then show ?thesis using False "4.IH"(1) by simp
    next
      case (Some sub)
      let ?st1 = "emit (call_log log_callback (msg_sub_sitemap sub)) st"
      let ?r = "get_sitemap_urls n w sub disallowed log_callback ?st1"
      have e1: "extends disallowed st ?st1" by (simp add: extends_emit_quiet)
      have e2: "extends disallowed ?st1 (snd ?r)"
        using "4.IH"(2) [OF False Some] .
      have e12: "extends disallowed st (snd ?r)" using e1 e2 by (rule extends_trans)
      show ?thesis
      proof (cases "fst ?r")
        case None
        then show ?thesis using False Some e12 by (simp add: split_beta)
      next
        case (Some res)
        have "extends disallowed (snd ?r) (snd (sitemap_loop n w tags disallowed log_callback (snd ?r)))"
          using "4.IH"(3) [OF False \<open>tag = Some sub\<close> _ Some] by (simp add: prod_eq_iff)
        with e12 have "extends disallowed st (snd (sitemap_loop n w tags disallowed log_callback (snd ?r)))"
          by (rule extends_trans)
        then show ?thesis using False \<open>tag = Some sub\<close> Some by (simp add: split_beta)
      qed
    qed
  qed
qed

lemma is_allowed_iff: "is_allowed x d \<longleftrightarrow> (\<forall>f\<in>set d. \<not> sublist f x)"
  by (simp add: is_allowed_def list_ex_iff)

lemma add_urls_result:
  "urls (snd (add_urls c xs)) =
     urls c @ (if limit c \<le> 0 then xs else take (nat (limit c - int (length (urls c)))) xs)"
  by (auto simp: add_urls_def Let_def py_slice_to_def)

lemma get_allowed_urls_single:
  "\<not> sublist ''.xml'' (py_lower s) \<Longrightarrow>
     get_allowed_urls fuel w s d lmt l =
       (if is_allowed s d then (Some [s], call_log l (msg_single_url s)) else (Some [], []))"
  by (auto simp: get_allowed_urls_def Let_def URLCollector_init_def add_urls_def py_slice_to_def)

lemma get_allowed_urls_trace:
  "\<exists>st'. extends d \<lparr>collector = URLCollector_init lmt, trace = []\<rparr> st'
       \<and> snd (get_allowed_urls fuel w s d lmt l) = trace st'
       \<and> (\<forall>r. fst (get_allowed_urls fuel w s d lmt l) = Some r \<longrightarrow> r = urls (collector st'))"
proof (cases "sublist ''.xml'' (py_lower s)")
  case True
  let ?st = "\<lparr>collector = URLCollector_init lmt, trace = []\<rparr>"
  have "extends d ?st (snd (get_sitemap_urls fuel w s d l ?st))"
    by (rule resolver_extends)
  then show ?thesis using True
    by (auto simp: get_allowed_urls_def Let_def split: prod.splits option.splits)
next
  case False
  let ?st = "\<lparr>collector = URLCollector_init lmt, trace = []\<rparr>"
  show ?thesis
  proof (cases "is_allowed s d")
    case True
    have "extends d ?st \<lparr>collector = snd (add_urls (URLCollector_init lmt) [s]), trace = call_log l (msg_single_url s)\<rparr>"
      using True by (auto simp: extends_def URLCollector_init_def add_urls_def py_slice_to_def Let_def)
    moreover have "urls (snd (add_urls (URLCollector_init lmt) [s])) = [s]"
      by (auto simp: URLCollector_init_def add_urls_def py_slice_to_def Let_def)
    ultimately show ?thesis using True False get_allowed_urls_single [OF False, of fuel w d lmt l]
      by (intro exI [of _ "\<lparr>collector = snd (add_urls (URLCollector_init lmt) [s]), trace = call_log l (msg_single_url s)\<rparr>"]) simp
  next
    case no: False
    show ?thesis using no False get_allowed_urls_single [OF False, of fuel w d lmt l]
      by (intro exI [of _ ?st]) (simp add: URLCollector_init_def)
  qed
qed

text \<open>
  C3. With a positive limit, once the collector has reached its limit \<open>get_sitemap_urls\<close>
  returns at once with the state untouched (so without a request), and the sitemap-index
  loop ends at once without a further sub-sitemap request. On whole runs: every sitemap
  request a call performs, whatever the web answers and however deep it goes (also when
  the run is cut off), is made while the collector holds fewer URLs than the limit; the
  same for every run of \<open>get_allowed_urls\<close>.
\<close>

theorem C3_no_fetch_once_full:
  "(limit_reached (collector st) \<longrightarrow>
      get_sitemap_urls (Suc n) w u d l st = (Some (urls (collector st)), st)
    \<and> sitemap_loop n w tags d l st = (True, st))
 \<and> (0 < limit (collector st) \<longrightarrow>
      (\<exists>evs. trace (snd (get_sitemap_urls fuel w u d l st)) = trace st @ evs
           \<and> (\<forall>k\<in>set (fetch_sizes evs). int k < limit (collector st))))
 \<and> (0 < lmt \<longrightarrow> (\<forall>k\<in>set (fetch_sizes (snd (get_allowed_urls fuel w s d lmt l))). int k < lmt))"
proof (intro conjI impI)
  assume "limit_reached (collector st)"
  then show "get_sitemap_urls (Suc n) w u d l st = (Some (urls (collector st)), st)"
    by (rule get_sitemap_urls_full)
next
  assume "limit_reached (collector st)"
  then show "sitemap_loop n w tags d l st = (True, st)"
    by (rule sitemap_loop_full)
next
  assume "0 < limit (collector st)"
  then show "\<exists>evs. trace (snd (get_sitemap_urls fuel w u d l st)) = trace st @ evs
           \<and> (\<forall>k\<in>set (fetch_sizes evs). int k < limit (collector st))"
    using resolver_extends(1) [of d st fuel w u l] by (auto simp: extends_def)
next
  assume "0 < lmt"
  then show "\<forall>k\<in>set (fetch_sizes (snd (get_allowed_urls fuel w s d lmt l))). int k < lmt"
    using get_allowed_urls_trace [of d lmt fuel w s l]
    by (auto simp: extends_def URLCollector_init_def)
qed

theorem C3_no_fetch_once_full_witness:
  "limit_reached \<lparr>limit = 2, urls = [''x'', ''y'']\<rparr>
 \<and> get_sitemap_urls (Suc 0) example_web ''i.xml'' [] False
      \<lparr>collector = \<lparr>limit = 2, urls = [''x'', ''y'']\<rparr>, trace = []\<rparr>
    = (Some [''x'', ''y''], \<lparr>collector = \<lparr>limit = 2, urls = [''x'', ''y'']\<rparr>, trace = []\<rparr>)
 \<and> fetch_sizes (snd (get_allowed_urls 2 example_web ''i.xml'' [''private''] 4 False)) = [0, 0, 2, 2]
 \<and> list_all (\<lambda>k. int k < 4)
      (fetch_sizes (snd (get_allowed_urls 2 example_web ''i.xml'' [''private''] 4 False)))"
proof -
  have full: "limit_reached \<lparr>limit = 2, urls = [''x'', ''y'']\<rparr>"
    by (simp add: limit_reached_def)
  have run: "fetch_sizes (snd (get_allowed_urls 2 example_web ''i.xml'' [''private''] 4 False))
      = [0, 0, 2, 2]"
    by code_simp
  show ?thesis
    using full run
      C3_no_fetch_once_full [where st = "\<lparr>collector = \<lparr>limit = 2, urls = [''x'', ''y'']\<rparr>, trace = []\<rparr>"
        and n = 0 and w = example_web and u = "''i.xml''" and d = "[]" and l = False and tags = "[]"
        and fuel = 2 and lmt = 4 and s = "''i.xml''"]
      C3_no_fetch_once_full [where st = "\<lparr>collector = \<lparr>limit = 2, urls = [''x'', ''y'']\<rparr>, trace = []\<rparr>"
        and n = 0 and w = example_web and u = "''i.xml''" and d = "[''private'']" and l = False and tags = "[]"
        and fuel = 2 and lmt = 4 and s = "''i.xml''"]
    by (simp add: list_all_iff)
qed

text \<open>
  C6. Disallowed-fragment filtering. Single-URL path: the entry URL is the result exactly
  when no fragment is a substring of it (compared code point by code point), otherwise the
  result is empty. Url-set path: the node appends the URLs of the document that contain no
  fragment, in document order, all of them without a limit and as many as still fit with
  one. No URL that resolution adds to the collector, and no URL of a list returned by
  \<open>get_allowed_urls\<close>, contains a fragment.
\<close>

theorem C6_disallowed_filtering:
  "(\<not> sublist ''.xml'' (py_lower s) \<longrightarrow>
      fst (get_allowed_urls fuel w s d lmt l) = Some (if \<exists>f\<in>set d. sublist f s then [] else [s]))
 \<and> (\<not> limit_reached (collector st) \<and> w (length (trace st)) u = Response status (UrlSet locs) \<longrightarrow>
      fst (get_sitemap_urls (Suc n) w u d l st)
        = Some (urls (collector (snd (get_sitemap_urls (Suc n) w u d l st))))
    \<and> urls (collector (snd (get_sitemap_urls (Suc n) w u d l st)))
        = urls (collector st)
          @ (if limit (collector st) \<le> 0 then filter (\<lambda>x. \<forall>f\<in>set d. \<not> sublist f x) locs
             else take (nat (limit (collector st) - int (length (urls (collector st)))))
                    (filter (\<lambda>x. \<forall>f\<in>set d. \<not> sublist f x) locs)))
 \<and> (\<forall>x\<in>set (urls (collector (snd (get_sitemap_urls fuel w u d l st)))).
       x \<in> set (urls (collector st)) \<or> (\<forall>f\<in>set d. \<not> sublist f x))
 \<and> (\<forall>r. fst (get_allowed_urls fuel w s d lmt l) = Some r \<longrightarrow>
       (\<forall>x\<in>set r. \<forall>f\<in>set d. \<not> sublist f x))"
proof (intro conjI impI allI)
  assume "\<not> sublist ''.xml'' (py_lower s)"
  then show "fst (get_allowed_urls fuel w s d lmt l)
      = Some (if \<exists>f\<in>set d. sublist f s then [] else [s])"
    by (simp add: get_allowed_urls_single is_allowed_iff)
next
  assume a: "\<not> limit_reached (collector st) \<and> w (length (trace st)) u = Response status (UrlSet locs)"
  have f: "filter (\<lambda>x. is_allowed x d) locs = filter (\<lambda>x. \<forall>f\<in>set d. \<not> sublist f x) locs"
    by (simp add: is_allowed_iff)
  from a show "fst (get_sitemap_urls (Suc n) w u d l st)
        = Some (urls (collector (snd (get_sitemap_urls (Suc n) w u d l st))))"
    using get_sitemap_urls_urlset [where w = w and st = st and u = u and status = status and locs = locs
        and n = n and d = d and l = l]
    by (simp add: emit_def)
  from a show "urls (collector (snd (get_sitemap_urls (Suc n) w u d l st)))
        = urls (collector st)
          @ (if limit (collector st) \<le> 0 then filter (\<lambda>x. \<forall>f\<in>set d. \<not> sublist f x) locs
             else take (nat (limit (collector st) - int (length (urls (collector st)))))
                    (filter (\<lambda>x. \<forall>f\<in>set d. \<not> sublist f x) locs))"
    using get_sitemap_urls_urlset(1) [where w = w and st = st and u = u and status = status and locs = locs
        and n = n and d = d and l = l]
      add_urls_result [of "collector st" "filter (\<lambda>x. is_allowed x d) locs"]
    unfolding f by (simp add: emit_def)
next
  show "\<forall>x\<in>set (urls (collector (snd (get_sitemap_urls fuel w u d l st)))).
       x \<in> set (urls (collector st)) \<or> (\<forall>f\<in>set d. \<not> sublist f x)"
    using resolver_extends(1) [of d st fuel w u l]
    by (auto simp: extends_def is_allowed_iff)
next
  fix r
  assume "fst (get_allowed_urls fuel w s d lmt l) = Some r"
  then show "\<forall>x\<in>set r. \<forall>f\<in>set d. \<not> sublist f x"
    using get_allowed_urls_trace [of d lmt fuel w s l]
    by (auto simp: extends_def URLCollector_init_def is_allowed_iff)
qed


theorem C6_disallowed_filtering_witness:
  "\<not> sublist ''.xml'' (py_lower ''site/private/p'')
 \<and> fst (get_allowed_urls 0 example_web ''site/private/p'' [''private''] 0 False) = Some []
 \<and> fst (get_allowed_urls 0 example_web ''site/Private/p'' [''private''] 0 False)
     = Some [''site/Private/p'']
 \<and> urls (collector (snd (get_sitemap_urls (Suc 0) example_web ''a.xml'' [''private''] False
          \<lparr>collector = \<lparr>limit = 0, urls = []\<rparr>, trace = []\<rparr>))) = [''a1'', ''a3'']
 \<and> fst (get_allowed_urls 2 example_web ''i.xml'' [''private''] 4 False)
     = Some [''a1'', ''a3'', ''b1'', ''b2'']
 \<and> list_all (\<lambda>x. \<not> sublist ''private'' x) [''a1'', ''a3'', ''b1'', ''b2'']"
proof -
  have h1: "\<not> sublist ''.xml'' (py_lower ''site/private/p'')" by code_simp
  have h2: "\<not> sublist ''.xml'' (py_lower ''site/Private/p'')" by code_simp
  have s1: "(\<exists>f\<in>set [''private'']. sublist f ''site/private/p'') = True" by code_simp
  have s2: "(\<exists>f\<in>set [''private'']. sublist f ''site/Private/p'') = False" by code_simp
  have h3: "\<not> limit_reached (collector \<lparr>collector = \<lparr>limit = 0, urls = []\<rparr>, trace = []\<rparr>)
      \<and> example_web (length (trace \<lparr>collector = \<lparr>limit = 0, urls = []\<rparr>, trace = []\<rparr>)) ''a.xml''
          = Response 200 (UrlSet [''a1'', ''a2/private'', ''a3''])"
    by (simp add: limit_reached_def example_web_def)
  have f3: "filter (\<lambda>x. \<forall>f\<in>set [''private'']. \<not> sublist f x) [''a1'', ''a2/private'', ''a3'']
      = [''a1'', ''a3'']"
    by code_simp
  have r4: "fst (get_allowed_urls 2 example_web ''i.xml'' [''private''] 4 False)
     = Some [''a1'', ''a3'', ''b1'', ''b2'']"
    by code_simp
  note t1 = C6_disallowed_filtering [where s = "''site/private/p''" and fuel = 0 and w = example_web
      and d = "[''private'']" and lmt = 0 and l = False
      and st = "\<lparr>collector = \<lparr>limit = 0, urls = []\<rparr>, trace = []\<rparr>" and u = "''a.xml''"
      and status = 200 and locs = "[''a1'', ''a2/private'', ''a3'']" and n = 0]
  note t2 = C6_disallowed_filtering [where s = "''site/Private/p''" and fuel = 0 and w = example_web
      and d = "[''private'']" and lmt = 0 and l = False
      and st = "\<lparr>collector = \<lparr>limit = 0, urls = []\<rparr>, trace = []\<rparr>" and u = "''a.xml''"
      and status = 200 and locs = "[''a1'', ''a2/private'', ''a3'']" and n = 0]
  note t3 = C6_disallowed_filtering [where s = "''i.xml''" and fuel = 2 and w = example_web
      and d = "[''private'']" and lmt = 4 and l = False
      and st = "\<lparr>collector = \<lparr>limit = 0, urls = []\<rparr>, trace = []\<rparr>" and u = "''a.xml''"
      and status = 200 and locs = "[''a1'', ''a2/private'', ''a3'']" and n = 0]
  have c1: "fst (get_allowed_urls 0 example_web ''site/private/p'' [''private''] 0 False) = Some []"
    using t1 [THEN conjunct1] h1 unfolding s1 by simp
  have c2: "fst (get_allowed_urls 0 example_web ''site/Private/p'' [''private''] 0 False)
     = Some [''site/Private/p'']"
    using t2 [THEN conjunct1] h2 unfolding s2 by simp
  have c3: "urls (collector (snd (get_sitemap_urls (Suc 0) example_web ''a.xml'' [''private''] False
          \<lparr>collector = \<lparr>limit = 0, urls = []\<rparr>, trace = []\<rparr>))) = [''a1'', ''a3'']"
    using t1 [THEN conjunct2, THEN conjunct1] h3 unfolding f3 by simp
  have "\<forall>x\<in>set [''a1'', ''a3'', ''b1'', ''b2'']. \<forall>f\<in>set [''private'']. \<not> sublist f x"
    using t3 [THEN conjunct2, THEN conjunct2, THEN conjunct2] r4 by blast
  then have c4: "list_all (\<lambda>x. \<not> sublist ''private'' x) [''a1'', ''a3'', ''b1'', ''b2'']"
    unfolding list_all_iff by simp
  from h1 c1 c2 c3 r4 c4 show ?thesis by blast
qed



text \<open>
  C9. With an empty list of disallowed fragments \<open>is_allowed\<close> is True for every URL, the
  filter of the url-set path keeps every URL, the single-URL path returns the entry URL,
  and a url-set node appends all its URLs (as many as fit under a positive limit).
\<close>

theorem C9_empty_disallowed:
  "is_allowed url []
 \<and> filter (\<lambda>x. is_allowed x []) locs = locs
 \<and> (\<not> sublist ''.xml'' (py_lower s) \<longrightarrow> fst (get_allowed_urls fuel w s [] lmt l) = Some [s])
 \<and> (\<not> limit_reached (collector st) \<and> w (length (trace st)) u = Response status (UrlSet locs) \<longrightarrow>
      urls (collector (snd (get_sitemap_urls (Suc n) w u [] l st)))
        = urls (collector st)
          @ (if limit (collector st) \<le> 0 then locs
             else take (nat (limit (collector st) - int (length (urls (collector st))))) locs))"
proof (intro conjI impI)
  show "is_allowed url []" by (simp add: is_allowed_def)
  show f: "filter (\<lambda>x. is_allowed x []) locs = locs" by (simp add: is_allowed_def)
  show "fst (get_allowed_urls fuel w s [] lmt l) = Some [s]" if "\<not> sublist ''.xml'' (py_lower s)"
    using that by (simp add: get_allowed_urls_single is_allowed_def)
  show "urls (collector (snd (get_sitemap_urls (Suc n) w u [] l st)))
        = urls (collector st)
          @ (if limit (collector st) \<le> 0 then locs
             else take (nat (limit (collector st) - int (length (urls (collector st))))) locs)"
    if "\<not> limit_reached (collector st) \<and> w (length (trace st)) u = Response status (UrlSet locs)"
    using that get_sitemap_urls_urlset(1) [where w = w and st = st and u = u and status = status
        and locs = locs and n = n and d = "[]" and l = l]
      add_urls_result [of "collector st" locs]
    unfolding f by (simp add: emit_def)
qed

theorem C9_empty_disallowed_witness:
  "\<not> sublist ''.xml'' (py_lower ''site/private/p'')
 \<and> fst (get_allowed_urls 0 example_web ''site/private/p'' [] 0 False) = Some [''site/private/p'']
 \<and> urls (collector (snd (get_sitemap_urls (Suc 0) example_web ''a.xml'' [] False
          \<lparr>collector = \<lparr>limit = 0, urls = []\<rparr>, trace = []\<rparr>))) = [''a1'', ''a2/private'', ''a3'']"
proof -
  let ?st = "\<lparr>collector = \<lparr>limit = 0, urls = []\<rparr>, trace = []\<rparr>"
  have h1: "\<not> sublist ''.xml'' (py_lower ''site/private/p'')" by code_simp
  have h3: "\<not> limit_reached (collector ?st)
      \<and> example_web (length (trace ?st)) ''a.xml''
          = Response 200 (UrlSet [''a1'', ''a2/private'', ''a3''])"
    by (simp add: limit_reached_def example_web_def)
  note t = C9_empty_disallowed [where s = "''site/private/p''" and fuel = 0 and w = example_web
      and lmt = 0 and l = False and st = ?st and u = "''a.xml''"
      and status = 200 and locs = "[''a1'', ''a2/private'', ''a3'']" and n = 0]
  from h1 h3 t [THEN conjunct2, THEN conjunct2] show ?thesis by simp
qed

section \<open>Properties of scrape_content\<close>

lemma delays_append [simp]: "delays (a @ b) = delays a @ delays b"
  by (simp add: delays_def)

lemma delays_simps [simp]:
  "delays [] = []"
  "delays (DelaySleep x # tr) = x # delays tr"
  "delays (PageGet u # tr) = delays tr"
  "delays (PageRender u # tr) = delays tr"
  "delays (Logging lv m # tr) = delays tr"
  "delays (LogCallback m # tr) = delays tr"
  "delays (StopCheck b # tr) = delays tr"
  "delays (PauseCheck b # tr) = delays tr"
  "delays (PollSleep # tr) = delays tr"
  by (simp_all add: delays_def)

lemma delays_call_log [simp]: "delays (call_log l m) = []"
  by (simp add: call_log_def)

lemma network_calls_append [simp]: "network_calls (a @ b) = network_calls a @ network_calls b"
  by (simp add: network_calls_def)

lemma network_calls_simps [simp]:
  "network_calls [] = []"
  "network_calls (DelaySleep x # tr) = network_calls tr"
  "network_calls (PageGet u # tr) = PageGet u # network_calls tr"
  "network_calls (PageRender u # tr) = PageRender u # network_calls tr"
  "network_calls (Logging lv m # tr) = network_calls tr"
  "network_calls (LogCallback m # tr) = network_calls tr"
  "network_calls (StopCheck b # tr) = network_calls tr"
  "network_calls (PauseCheck b # tr) = network_calls tr"
  "network_calls (PollSleep # tr) = network_calls tr"
  by (simp_all add: network_calls_def is_network_call_def)

lemma network_calls_call_log [simp]: "network_calls (call_log l m) = []"
  by (simp add: call_log_def)

lemma wait_while_paused_trace:
  assumes "wait_while_paused env tr = Some y"
  shows "\<exists>evs. snd y = tr @ evs \<and> delays evs = [] \<and> network_calls evs = []
           \<and> (\<not> fst y \<longrightarrow> (\<exists>polls. evs = polls @ [PauseCheck False]))"
  apply (rule wait_while_paused.raw_induct
    [where P = "\<lambda>env tr y. \<exists>evs. snd y = tr @ evs \<and> delays evs = [] \<and> network_calls evs = []
           \<and> (\<not> fst y \<longrightarrow> (\<exists>polls. evs = polls @ [PauseCheck False]))", OF _ assms])
  subgoal premises prems for wait env tr y
  proof -
    note IH = prems(1) and body = prems(2)
    show ?thesis
    proof (cases "pause_event env (length tr)")
      case False
      with body have y: "y = (False, tr @ [PauseCheck False])" by simp
      have "[PauseCheck False] = [] @ [PauseCheck False]" by simp
      then have "\<exists>polls. [PauseCheck False] = polls @ [PauseCheck False]" by blast
      then show ?thesis unfolding y
        by (intro exI [of _ "[PauseCheck False]"]) simp
    next
      case True
      show ?thesis
      proof (cases "stop_event env (length (tr @ [PauseCheck True, PollSleep]))")
        case stop: True
        with True body have y: "y = (True, tr @ [PauseCheck True, PollSleep, StopCheck True])"
          by simp
        show ?thesis unfolding y
          by (intro exI [of _ "[PauseCheck True, PollSleep, StopCheck True]"]) simp
      next
        case go: False
        with True body
        have "wait env (tr @ [PauseCheck True, PollSleep, StopCheck False]) = Some y" by simp
        from IH [OF this] obtain evs where
          e: "snd y = (tr @ [PauseCheck True, PollSleep, StopCheck False]) @ evs"
            "delays evs = []" "network_calls evs = []"
            "\<not> fst y \<longrightarrow> (\<exists>polls. evs = polls @ [PauseCheck False])"
          by blast
        show ?thesis
        proof (rule exI [of _ "[PauseCheck True, PollSleep, StopCheck False] @ evs"],
            intro conjI impI)
          show "snd y = tr @ [PauseCheck True, PollSleep, StopCheck False] @ evs"
            using e(1) by simp
          show "delays ([PauseCheck True, PollSleep, StopCheck False] @ evs) = []"
            using e(2) by simp
          show "network_calls ([PauseCheck True, PollSleep, StopCheck False] @ evs) = []"
            using e(3) by simp
          show "\<exists>polls. [PauseCheck True, PollSleep, StopCheck False] @ evs
                  = polls @ [PauseCheck False]"
            if "\<not> fst y"
          proof -
            from e(4) that obtain polls where "evs = polls @ [PauseCheck False]" by blast
            then have "[PauseCheck True, PollSleep, StopCheck False] @ evs
                = ([PauseCheck True, PollSleep, StopCheck False] @ polls) @ [PauseCheck False]"
              by simp
            then show ?thesis by blast
          qed
        qed
      qed
    qed
  qed
  done

lemma fetch_page_trace:
  "\<exists>fev. snd (fetch_page env url l js tr) = tr @ fev \<and> delays fev = []
         \<and> network_calls fev = [if js then PageRender url else PageGet url]"
  by (auto simp: fetch_page_def split: sum.splits fetch_result.splits)

lemma fetch_page_failure:
  "(if js then playwright env (length tr) url = Inl e
    else requests_get env (length tr) url = RequestException e) \<Longrightarrow>
   fetch_page env url l js tr =
     (None, tr @ (if js then PageRender url else PageGet url)
               # Logging ERROR (if js then msg_js_error url e else msg_page_error url e)
               # call_log l (if js then msg_js_error url e else msg_page_error url e))"
  by (auto simp: fetch_page_def split: if_splits)

lemma extract_record_nonempty [simp]: "extract_record env url soup \<noteq> []"
  by (simp add: extract_record_def)

text \<open>
  C5. When \<open>stop_event\<close> is set at the moment \<open>scrape_content\<close> is called, the call returns
  the empty dict, and the only thing it has done is the read of the flag: the trace gains
  no network call (no HTTP request, no browser render).
\<close>

theorem C5_stop_preset:
  assumes "stop_event env (length tr)"
  shows "scrape_content env url min_delay max_delay log_callback js_enabled tr
           = Some ([], tr @ [StopCheck True])
       \<and> network_calls (tr @ [StopCheck True]) = network_calls tr"
  using assms by (simp add: scrape_content_def)

theorem C5_stop_preset_witness:
  "stop_event (example_env True) (length ([] :: event list))
 \<and> scrape_content (example_env True) ''ok'' 1 3 True False [] = Some ([], [StopCheck True])
 \<and> network_calls [StopCheck True] = []"
proof -
  have h: "stop_event (example_env True) (length ([] :: event list))"
    by (simp add: example_env_def)
  from C5_stop_preset [OF h, of "''ok''" 1 3 True False] h show ?thesis by simp
qed


lemma scrape_content_result:
  assumes "scrape_content env url mn mx l js tr = Some (d, tr')"
  shows "(d = [] \<and> delays tr' = delays tr)
       \<or> (d \<noteq> [] \<and> (\<exists>pre polls x.
             tr' = tr @ pre @ StopCheck False # polls @ PauseCheck False
                     # call_log l (msg_delay env x) @ [DelaySleep x]
           \<and> delays pre = [] \<and> delays polls = [] \<and> network_calls polls = []
           \<and> network_calls pre = [if js then PageRender url else PageGet url]))"
proof (cases "stop_event env (length tr)")
  case True
  with assms show ?thesis by (auto simp: scrape_content_def)
next
  case nostop: False
  from assms nostop obtain b1 tr1 where w1: "wait_while_paused env (tr @ [StopCheck False]) = Some (b1, tr1)"
    by (auto simp: scrape_content_def split: option.splits)
  from wait_while_paused_trace [OF w1] obtain evs1 where
    e1: "tr1 = (tr @ [StopCheck False]) @ evs1" "delays evs1 = []" "network_calls evs1 = []"
    by auto
  show ?thesis
  proof (cases b1)
    case True
    with assms nostop w1 e1 show ?thesis by (auto simp: scrape_content_def)
  next
    case go1: False
    obtain r tr2 where f: "fetch_page env url l js tr1 = (r, tr2)" by (cases "fetch_page env url l js tr1")
    from fetch_page_trace [of env url l js tr1] f obtain fev where
      e2: "tr2 = tr1 @ fev" "delays fev = []"
        "network_calls fev = [if js then PageRender url else PageGet url]"
      by auto
    show ?thesis
    proof (cases r)
      case None
      with assms nostop w1 go1 f e1 e2 show ?thesis by (auto simp: scrape_content_def)
    next
      case (Some soup)
      show ?thesis
      proof (cases "stop_event env (length tr2)")
        case True
        with assms nostop w1 go1 f Some e1 e2 show ?thesis by (auto simp: scrape_content_def)
      next
        case nostop2: False
        from assms nostop w1 go1 f Some nostop2 obtain b3 tr3 where
          w3: "wait_while_paused env (tr2 @ [StopCheck False]) = Some (b3, tr3)"
          by (auto simp: scrape_content_def split: option.splits)
        from wait_while_paused_trace [OF w3] obtain evs3 where
          e3: "tr3 = (tr2 @ [StopCheck False]) @ evs3" "delays evs3 = []" "network_calls evs3 = []"
            "\<not> b3 \<longrightarrow> (\<exists>polls. evs3 = polls @ [PauseCheck False])"
          by auto
        show ?thesis
        proof (cases b3)
          case True
          with assms nostop w1 go1 f Some nostop2 w3 e1 e2 e3 show ?thesis
            by (auto simp: scrape_content_def)
        next
          case go3: False
          with e3(4) obtain polls where p: "evs3 = polls @ [PauseCheck False]" by blast
          let ?x = "random_uniform env (length tr3) mn mx"
          from assms nostop w1 go1 f Some nostop2 w3 go3
          have d: "d = extract_record env url soup"
            and t: "tr' = tr3 @ call_log l (msg_delay env ?x) @ [DelaySleep ?x]"
            by (simp_all add: scrape_content_def Let_def)
          let ?pre = "[StopCheck False] @ evs1 @ fev"
          have shape: "tr' = tr @ ?pre @ StopCheck False # polls @ PauseCheck False
                     # call_log l (msg_delay env ?x) @ [DelaySleep ?x]"
            using t e3(1) e2(1) e1(1) p by simp
          have q1: "delays ?pre = []" using e1(2) e2(2) by simp
          have q2: "delays polls = []" using e3(2) p by simp
          have q3: "network_calls polls = []" using e3(3) p by simp
          have q4: "network_calls ?pre = [if js then PageRender url else PageGet url]"
            using e1(3) e2(3) by simp
          have "d \<noteq> []" using d by simp
          with shape q1 q2 q3 q4 show ?thesis by blast
        qed
      qed
    qed
  qed
qed

text \<open>
  C10. When the fetch fails (the HTTP request raises a \<open>RequestException\<close>, or the
  Playwright block raises), \<open>scrape_content\<close> returns the empty dict right after the error
  record and its callback, and no politeness delay has been slept. In every run that
  returns: an empty result comes with no politeness delay at all, and a non-empty result
  comes with exactly one, as the last event of the call, after the fetch, after the second
  stop check (found unset) and after the second pause loop (left on an unset pause flag).
\<close>

theorem C10_no_delay_on_fetch_failure:
  "(\<not> stop_event env (length tr)
      \<and> wait_while_paused env (tr @ [StopCheck False]) = Some (False, trw)
      \<and> (if js then playwright env (length trw) url = Inl e
          else requests_get env (length trw) url = RequestException e) \<longrightarrow>
      scrape_content env url mn mx l js tr
        = Some ([], trw @ (if js then PageRender url else PageGet url)
                       # Logging ERROR (if js then msg_js_error url e else msg_page_error url e)
                       # call_log l (if js then msg_js_error url e else msg_page_error url e))
    \<and> delays (trw @ (if js then PageRender url else PageGet url)
                 # Logging ERROR (if js then msg_js_error url e else msg_page_error url e)
                 # call_log l (if js then msg_js_error url e else msg_page_error url e))
        = delays tr)
 \<and> (scrape_content env url mn mx l js tr = Some (d, tr') \<longrightarrow>
      (d = [] \<and> delays tr' = delays tr)
    \<or> (d \<noteq> [] \<and> (\<exists>pre polls x.
          tr' = tr @ pre @ StopCheck False # polls @ PauseCheck False
                  # call_log l (msg_delay env x) @ [DelaySleep x]
        \<and> delays pre = [] \<and> delays polls = [] \<and> network_calls polls = []
        \<and> network_calls pre = [if js then PageRender url else PageGet url])))"
proof (intro conjI impI)
  assume a: "\<not> stop_event env (length tr)
      \<and> wait_while_paused env (tr @ [StopCheck False]) = Some (False, trw)
      \<and> (if js then playwright env (length trw) url = Inl e
          else requests_get env (length trw) url = RequestException e)"
  then have f: "fetch_page env url l js trw =
     (None, trw @ (if js then PageRender url else PageGet url)
               # Logging ERROR (if js then msg_js_error url e else msg_page_error url e)
               # call_log l (if js then msg_js_error url e else msg_page_error url e))"
    using fetch_page_failure [of js env trw url e l] by blast
  from a f show "scrape_content env url mn mx l js tr
        = Some ([], trw @ (if js then PageRender url else PageGet url)
                       # Logging ERROR (if js then msg_js_error url e else msg_page_error url e)
                       # call_log l (if js then msg_js_error url e else msg_page_error url e))"
    by (simp add: scrape_content_def)
  from a wait_while_paused_trace [of env "tr @ [StopCheck False]" "(False, trw)"]
  obtain evs where "trw = (tr @ [StopCheck False]) @ evs" "delays evs = []" by auto
  then show "delays (trw @ (if js then PageRender url else PageGet url)
                 # Logging ERROR (if js then msg_js_error url e else msg_page_error url e)
                 # call_log l (if js then msg_js_error url e else msg_page_error url e))
        = delays tr"
    by simp
next
  assume "scrape_content env url mn mx l js tr = Some (d, tr')"
  then show "(d = [] \<and> delays tr' = delays tr)
    \<or> (d \<noteq> [] \<and> (\<exists>pre polls x.
          tr' = tr @ pre @ StopCheck False # polls @ PauseCheck False
                  # call_log l (msg_delay env x) @ [DelaySleep x]
        \<and> delays pre = [] \<and> delays polls = [] \<and> network_calls polls = []
        \<and> network_calls pre = [if js then PageRender url else PageGet url]))"
    by (rule scrape_content_result)
qed

lemma example_wait:
  "wait_while_paused (example_env False) [StopCheck False]
     = Some (False, [StopCheck False, PauseCheck True, PollSleep, StopCheck False, PauseCheck False])"
  by code_simp

theorem C10_no_delay_on_fetch_failure_witness:
  "scrape_content (example_env False) ''bad'' 1 3 False False []
     = Some ([], [StopCheck False, PauseCheck True, PollSleep, StopCheck False, PauseCheck False,
                  PageGet ''bad'', Logging ERROR (msg_page_error ''bad'' ''404'')])
 \<and> delays [StopCheck False, PauseCheck True, PollSleep, StopCheck False, PauseCheck False,
            PageGet ''bad'', Logging ERROR (msg_page_error ''bad'' ''404'')] = []
 \<and> map_option (\<lambda>r. delays (snd r)) (scrape_content (example_env False) ''ok'' 1 3 False False [])
     = Some [2]"
proof -
  let ?tr1 = "[StopCheck False, PauseCheck True, PollSleep, StopCheck False, PauseCheck False]"
  have h: "\<not> stop_event (example_env False) (length ([] :: event list))
      \<and> wait_while_paused (example_env False) ([] @ [StopCheck False]) = Some (False, ?tr1)
      \<and> (if False then playwright (example_env False) (length ?tr1) ''bad'' = Inl ''404''
          else requests_get (example_env False) (length ?tr1) ''bad'' = RequestException ''404'')"
    using example_wait by (simp add: example_env_def)
  have ok: "map_option (\<lambda>r. delays (snd r))
      (scrape_content (example_env False) ''ok'' 1 3 False False []) = Some [2]"
    by code_simp
  from C10_no_delay_on_fetch_failure [where env = "example_env False" and tr = "[]" and trw = ?tr1
      and js = False and url = "''bad''" and e = "''404''" and mn = 1 and mx = 3 and l = False,
      THEN conjunct1] h ok
  show ?thesis by (simp add: call_log_def)
qed

section \<open>Properties of scrape_all_urls\<close>

lemma observed_simps [simp]:
  "observed [] = []"
  "stop_is_set c \<Longrightarrow> observed (c # cs) = []"
  "\<not> stop_is_set c \<Longrightarrow> observed (c # cs) = c # observed cs"
  by (simp_all add: observed_def)

lemma records_Cons:
  "records (c # cs) =
     (case task_result c of Returned data \<Rightarrow> if data \<noteq> [] then [data] else [] | Raised exc \<Rightarrow> [])
     @ records cs"
  by (simp add: records_def)

lemma consume_closed:
  "consume pc lc dc n i cs results tr =
     (results @ records (observed cs),
      tr @ concat (map (\<lambda>(k, c). completion_events pc lc dc n k c)
                    (zip [i..<i + length (observed cs)] (observed cs))))"
proof (induction cs arbitrary: i results tr)
  case Nil
  then show ?case by (simp add: records_def)
next
  case (Cons c cs)
  show ?case
  proof (cases "stop_is_set c")
    case True
    then show ?thesis by (simp add: records_def)
  next
    case False
    have upt: "[i..<i + Suc (length (observed cs))] = i # [Suc i..<Suc i + length (observed cs)]"
      using upt_rec [of i "i + Suc (length (observed cs))"] by simp
    show ?thesis
    proof (cases "task_result c")
      case (Returned data)
      then show ?thesis using False Cons.IH upt
        by (simp add: records_Cons completion_events_def status_msg_def)
    next
      case (Raised exc)
      then show ?thesis using False Cons.IH upt
        by (simp add: records_Cons completion_events_def status_msg_def)
    qed
  qed
qed

lemma scrape_all_urls_closed:
  assumes "url_list \<noteq> []" and "1 \<le> workers"
  shows "scrape_all_urls url_list workers pc lc dc completed =
     Inr (records (observed completed),
          concat (map (\<lambda>(k, c). completion_events pc lc dc (length url_list) k c)
                    (zip [1..<Suc (length (observed completed))] (observed completed))))"
  using assms by (simp add: scrape_all_urls_def consume_closed)

lemma progress_calls_append [simp]:
  "progress_calls (a @ b) = progress_calls a @ progress_calls b"
  by (simp add: progress_calls_def)

lemma info_log_append [simp]: "info_log (a @ b) = info_log a @ info_log b"
  by (simp add: info_log_def)

lemma log_calls_append [simp]: "log_calls (a @ b) = log_calls a @ log_calls b"
  by (simp add: log_calls_def)

lemma progress_calls_simps [simp]:
  "progress_calls [] = []"
  "progress_calls (ProgressCallback i n m # tr) = (i, n, m) # progress_calls tr"
  "progress_calls (Logging lv m # tr) = progress_calls tr"
  "progress_calls (LogCallback m # tr) = progress_calls tr"
  "progress_calls (DataCallback d # tr) = progress_calls tr"
  by (simp_all add: progress_calls_def)

lemma info_log_simps [simp]:
  "info_log [] = []"
  "info_log (ProgressCallback i n m # tr) = info_log tr"
  "info_log (Logging INFO m # tr) = m # info_log tr"
  "info_log (LogCallback m # tr) = info_log tr"
  "info_log (DataCallback d # tr) = info_log tr"
  by (simp_all add: info_log_def)

lemma log_calls_simps [simp]:
  "log_calls [] = []"
  "log_calls (ProgressCallback i n m # tr) = log_calls tr"
  "log_calls (Logging lv m # tr) = log_calls tr"
  "log_calls (LogCallback m # tr) = m # log_calls tr"
  "log_calls (DataCallback d # tr) = log_calls tr"
  by (simp_all add: log_calls_def)

lemma progress_calls_completion:
  "progress_calls (completion_events pc lc dc n k c) = (if pc then [(k, n, status_msg n k c)] else [])"
  by (simp add: completion_events_def emit_status_def call_log_def split: task_result.splits)

lemma info_log_completion:
  "info_log (completion_events pc lc dc n k c) = [status_msg n k c]"
  by (simp add: completion_events_def emit_status_def call_log_def split: task_result.splits)

lemma log_calls_completion:
  "log_calls (completion_events pc lc dc n k c) = (if lc then [status_msg n k c] else [])"
  by (simp add: completion_events_def emit_status_def call_log_def split: task_result.splits)

lemma progress_calls_run:
  "progress_calls (concat (map (\<lambda>(k, c). completion_events True lc dc n k c) zs))
     = map (\<lambda>(k, c). (k, n, status_msg n k c)) zs"
  by (induction zs) (auto simp: progress_calls_completion)

lemma info_log_run:
  "info_log (concat (map (\<lambda>(k, c). completion_events pc lc dc n k c) zs))
     = map (\<lambda>(k, c). status_msg n k c) zs"
  by (induction zs) (auto simp: info_log_completion)

lemma log_calls_run:
  "log_calls (concat (map (\<lambda>(k, c). completion_events pc True dc n k c) zs))
     = map (\<lambda>(k, c). status_msg n k c) zs"
  by (induction zs) (auto simp: log_calls_completion)

lemma observed_all: "\<forall>c\<in>set cs. \<not> stop_is_set c \<Longrightarrow> observed cs = cs"
  by (simp add: observed_def)

lemma observed_prefix:
  assumes "k < length cs" and "\<forall>c\<in>set (take (Suc k) cs). \<not> stop_is_set c"
  shows "k < length (observed cs) \<and> observed cs ! k = cs ! k"
proof -
  have "takeWhile (\<lambda>c. \<not> stop_is_set c) (take (Suc k) cs @ drop (Suc k) cs)
      = take (Suc k) cs @ takeWhile (\<lambda>c. \<not> stop_is_set c) (drop (Suc k) cs)"
    using assms(2) by (intro takeWhile_append2) simp
  then have o: "observed cs = take (Suc k) cs @ takeWhile (\<lambda>c. \<not> stop_is_set c) (drop (Suc k) cs)"
    by (simp add: observed_def)
  have l: "length (take (Suc k) cs) = Suc k" using assms(1) by simp
  show ?thesis using o l assms(1) by (simp add: nth_append)
qed

lemma records_comprehension:
  "records cs = [d. c \<leftarrow> cs, Returned d \<leftarrow> [task_result c], d \<noteq> []]"
  by (induction cs) (auto simp: records_def split: task_result.splits)

lemma length_records: "length (records cs) = length (filter succeeded cs)"
  by (induction cs) (auto simp: records_def succeeded_def split: task_result.splits)

text \<open>
  C4 (amended). Over N URLs with at least one worker and a progress callback, let m be the
  number of completions observed before the first one at which \<open>stop_event\<close> is seen set.
  The progress callback is invoked exactly m times, numbered 1 to m in completion order and
  each time with total N; exactly m status messages are logged; and the returned list holds
  exactly the non-empty dicts returned by these m tasks, in completion order, its length
  being the number of successful tasks among them. So the completion at which the flag is
  seen set and every later one give no notification, no message and no record. When the
  flag is not set at any observation, m = N: N notifications numbered 1 to N, and the
  non-empty dicts of all tasks.
\<close>

theorem C4_progress_and_results:
  assumes "1 \<le> workers"
    and "mset (map task_url completed) = mset url_list"
  shows "\<exists>results tr.
      scrape_all_urls url_list workers True lc dc completed = Inr (results, tr)
    \<and> map fst (progress_calls tr)
        = [1..<Suc (length (takeWhile (\<lambda>c. \<not> stop_is_set c) completed))]
    \<and> map (\<lambda>p. fst (snd p)) (progress_calls tr)
        = replicate (length (takeWhile (\<lambda>c. \<not> stop_is_set c) completed)) (length url_list)
    \<and> length (info_log tr) = length (takeWhile (\<lambda>c. \<not> stop_is_set c) completed)
    \<and> results = [d. c \<leftarrow> takeWhile (\<lambda>c. \<not> stop_is_set c) completed,
                      Returned d \<leftarrow> [task_result c], d \<noteq> []]
    \<and> length results = length (filter succeeded (takeWhile (\<lambda>c. \<not> stop_is_set c) completed))
    \<and> ((\<forall>c\<in>set completed. \<not> stop_is_set c) \<longrightarrow>
          length (progress_calls tr) = length url_list
        \<and> map fst (progress_calls tr) = [1..<Suc (length url_list)]
        \<and> map (\<lambda>p. fst (snd p)) (progress_calls tr)
            = replicate (length url_list) (length url_list)
        \<and> results = [d. c \<leftarrow> completed, Returned d \<leftarrow> [task_result c], d \<noteq> []]
        \<and> length results = length (filter succeeded completed))"
proof (cases "url_list = []")
  case True
  with assms(2) have "completed = []" by simp
  with True show ?thesis by (simp add: scrape_all_urls_def progress_calls_def info_log_def)
next
  case False
  let ?n = "length url_list"
  let ?obs = "takeWhile (\<lambda>c. \<not> stop_is_set c) completed"
  have len: "length completed = ?n"
    using assms(2) by (metis length_map size_mset)
  let ?zs = "zip [1..<Suc (length ?obs)] ?obs"
  let ?tr = "concat (map (\<lambda>(k, c). completion_events True lc dc ?n k c) ?zs)"
  have run: "scrape_all_urls url_list workers True lc dc completed = Inr (records ?obs, ?tr)"
    using scrape_all_urls_closed [OF False assms(1), of True lc dc completed]
    by (simp add: observed_def)
  have pc: "progress_calls ?tr = map (\<lambda>(k, c). (k, ?n, status_msg ?n k c)) ?zs"
    by (rule progress_calls_run)
  have il: "info_log ?tr = map (\<lambda>(k, c). status_msg ?n k c) ?zs"
    by (rule info_log_run)
  have lu: "length [1..<Suc (length ?obs)] = length ?obs"
    by (simp del: upt_Suc)
  have lz: "length ?zs = length ?obs"
    using lu by (simp del: length_upt upt_Suc)
  have fz: "map fst ?zs = [1..<Suc (length ?obs)]"
    using map_fst_zip [OF lu] by (simp del: upt_Suc)
  have "map fst (progress_calls ?tr) = map fst ?zs"
    unfolding pc by (simp add: case_prod_beta comp_def)
  then have p2: "map fst (progress_calls ?tr) = [1..<Suc (length ?obs)]"
    using fz by (simp del: upt_Suc)
  have "map (\<lambda>p. fst (snd p)) (progress_calls ?tr) = map (\<lambda>z. ?n) ?zs"
    unfolding pc by (simp add: case_prod_beta comp_def)
  then have p3: "map (\<lambda>p. fst (snd p)) (progress_calls ?tr) = replicate (length ?obs) ?n"
    using lz by (simp add: map_replicate_const del: length_zip length_upt upt_Suc)
  have p4: "length (info_log ?tr) = length ?obs"
    unfolding il using lz by (simp del: length_zip length_upt upt_Suc)
  have r1: "records ?obs = [d. c \<leftarrow> ?obs, Returned d \<leftarrow> [task_result c], d \<noteq> []]"
    by (rule records_comprehension)
  have r2: "length (records ?obs) = length (filter succeeded ?obs)"
    by (rule length_records)
  have all: "length (progress_calls ?tr) = ?n
        \<and> map fst (progress_calls ?tr) = [1..<Suc ?n]
        \<and> map (\<lambda>p. fst (snd p)) (progress_calls ?tr) = replicate ?n ?n
        \<and> records ?obs = [d. c \<leftarrow> completed, Returned d \<leftarrow> [task_result c], d \<noteq> []]
        \<and> length (records ?obs) = length (filter succeeded completed)"
    if "\<forall>c\<in>set completed. \<not> stop_is_set c"
  proof -
    from that have o: "?obs = completed" by simp
    have lo: "length ?obs = ?n" by (simp only: o len)
    have "length (progress_calls ?tr) = length ?obs"
      unfolding pc using lz by (simp del: length_zip length_upt upt_Suc)
    then have q1: "length (progress_calls ?tr) = ?n" using lo by (rule trans)
    have "[1..<Suc (length ?obs)] = [1..<Suc ?n]" by (simp only: lo)
    with p2 have q2: "map fst (progress_calls ?tr) = [1..<Suc ?n]" by (rule trans)
    have "replicate (length ?obs) ?n = replicate ?n ?n" by (simp only: lo)
    with p3 have q3: "map (\<lambda>p. fst (snd p)) (progress_calls ?tr) = replicate ?n ?n"
      by (rule trans)
    have "[d. c \<leftarrow> ?obs, Returned d \<leftarrow> [task_result c], d \<noteq> []]
        = [d. c \<leftarrow> completed, Returned d \<leftarrow> [task_result c], d \<noteq> []]"
      by (simp only: o)
    with r1 have q4: "records ?obs
        = [d. c \<leftarrow> completed, Returned d \<leftarrow> [task_result c], d \<noteq> []]"
      by (rule trans)
    have "length (filter succeeded ?obs) = length (filter succeeded completed)"
      by (simp only: o)
    with r2 have q5: "length (records ?obs) = length (filter succeeded completed)"
      by (rule trans)
    from q1 q2 q3 q4 q5 show ?thesis by (intro conjI)
  qed
  from run p2 p3 p4 r1 r2 all show ?thesis by blast
qed

theorem C4_progress_and_results_witness:
  "scrape_all_urls [''u'', ''v''] 2 True False False example_completed
     = Inr ([[(''url'', Str ''u'')]],
            [Logging INFO (msg_failed 1 2 ''v''), ProgressCallback 1 2 (msg_failed 1 2 ''v''),
             Logging INFO (msg_ok 2 2 ''u''), ProgressCallback 2 2 (msg_ok 2 2 ''u'')])
 \<and> map fst (progress_calls
       [Logging INFO (msg_failed 1 2 ''v''), ProgressCallback 1 2 (msg_failed 1 2 ''v''),
        Logging INFO (msg_ok 2 2 ''u''), ProgressCallback 2 2 (msg_ok 2 2 ''u'')]) = [1..<Suc 2]
 \<and> length [[(''url'', Str ''u'')]] = length (filter succeeded example_completed)
 \<and> scrape_all_urls [''u'', ''v''] 2 True False False example_stopped = Inr ([], [])
 \<and> takeWhile (\<lambda>c. \<not> stop_is_set c) example_stopped = []
 \<and> map fst (progress_calls []) = [1..<Suc (length ([] :: completion list))]"
proof -
  let ?T = "[Logging INFO (msg_failed 1 2 ''v''), ProgressCallback 1 2 (msg_failed 1 2 ''v''),
             Logging INFO (msg_ok 2 2 ''u''), ProgressCallback 2 2 (msg_ok 2 2 ''u'')]"
  have h1: "(1::int) \<le> 2" by simp
  have h2: "mset (map task_url example_completed) = mset [''u'', ''v'']"
    by (simp add: example_completed_def)
  have h3: "\<forall>c\<in>set example_completed. \<not> stop_is_set c"
    by (simp add: example_completed_def)
  have run: "scrape_all_urls [''u'', ''v''] 2 True False False example_completed
     = Inr ([[(''url'', Str ''u'')]], ?T)"
    by code_simp
  from C4_progress_and_results [OF h1 h2, of False False] h3 obtain results tr where
    r: "scrape_all_urls [''u'', ''v''] 2 True False False example_completed = Inr (results, tr)"
      "map fst (progress_calls tr) = [1..<Suc (length [''u'', ''v''])]"
      "length results = length (filter succeeded example_completed)"
    by blast
  from r(1) run have res: "results = [[(''url'', Str ''u'')]]" and tr: "tr = ?T" by simp_all
  have "length [''u'', ''v''] = 2" by simp
  with r(2) have c2: "map fst (progress_calls ?T) = [1..<Suc 2]"
    unfolding tr by (simp only:)
  from r(3) have c3: "length [[(''url'', Str ''u'')]] = length (filter succeeded example_completed)"
    unfolding res .
  have g2: "mset (map task_url example_stopped) = mset [''u'', ''v'']"
    by (simp add: example_stopped_def)
  have tw: "takeWhile (\<lambda>c. \<not> stop_is_set c) example_stopped = []"
    by (simp add: example_stopped_def)
  have run': "scrape_all_urls [''u'', ''v''] 2 True False False example_stopped = Inr ([], [])"
    by code_simp
  from C4_progress_and_results [OF h1 g2, of False False] obtain results' tr' where
    s: "scrape_all_urls [''u'', ''v''] 2 True False False example_stopped = Inr (results', tr')"
      "map fst (progress_calls tr')
        = [1..<Suc (length (takeWhile (\<lambda>c. \<not> stop_is_set c) example_stopped))]"
    by blast
  from s(1) run' have tr': "tr' = []" by simp
  from s(2) have c4: "map fst (progress_calls []) = [1..<Suc (length ([] :: completion list))]"
    unfolding tr' tw .
  from run c2 c3 run' tw c4 show ?thesis by (intro conjI)
qed

text \<open>
  The claim without the condition on \<open>stop_event\<close> fails: one URL, one worker, the task
  returned a record, but the flag is set when its completion is observed. The loop
  breaks: no progress notification and an empty result.
\<close>

theorem C4_counterexample:
  "scrape_all_urls [''u''] 1 True True True
     [\<lparr>task_url = ''u'', task_result = Returned [(''url'', Str ''u'')], stop_is_set = True\<rparr>]
   = Inr ([], [])"
  by (simp add: scrape_all_urls_def)

text \<open>
  C8 (amended). For the completion observed as number \<open>k + 1\<close> (none of the first \<open>k + 1\<close>
  completions saw \<open>stop_event\<close> set), the message written to the log, and handed to the
  progress callback (with \<open>k + 1\<close> and the total) and to the log callback where they are
  supplied, is "[i/total] OK: url" for a non-empty dict, the French "[i/total] Echec ou
  annule: url" of the source (its first letter is E acute, \<open>CHR 0xC9\<close>, and the last letter
  of the second word is e acute, \<open>CHR 0xE9\<close>) for an empty dict, and
  "[i/total] Exception pour url: exc" when the task raised.
\<close>

theorem C8_status_messages:
  assumes "url_list \<noteq> []" and "1 \<le> workers" and "k < length completed"
    and "\<forall>c\<in>set (take (Suc k) completed). \<not> stop_is_set c"
  shows "let msg =
        (case task_result (completed ! k) of
           Returned data \<Rightarrow>
             if data \<noteq> []
             then ''['' @ str_nat (Suc k) @ ''/'' @ str_nat (length url_list) @ ''] OK: ''
                    @ task_url (completed ! k)
             else ''['' @ str_nat (Suc k) @ ''/'' @ str_nat (length url_list) @ ''] ''
                    @ [CHR 0xC9] @ ''chec ou annul'' @ [CHR 0xE9] @ '': '' @ task_url (completed ! k)
         | Raised exc \<Rightarrow>
             ''['' @ str_nat (Suc k) @ ''/'' @ str_nat (length url_list) @ ''] Exception pour ''
               @ task_url (completed ! k) @ '': '' @ exc)
     in \<exists>results tr.
          scrape_all_urls url_list workers pc lc dc completed = Inr (results, tr)
        \<and> k < length (info_log tr) \<and> info_log tr ! k = msg
        \<and> (pc \<longrightarrow> k < length (progress_calls tr)
                 \<and> progress_calls tr ! k = (Suc k, length url_list, msg))
        \<and> (lc \<longrightarrow> k < length (log_calls tr) \<and> log_calls tr ! k = msg)"
proof -
  let ?n = "length url_list"
  let ?obs = "observed completed"
  let ?zs = "zip [1..<Suc (length ?obs)] ?obs"
  let ?tr = "concat (map (\<lambda>(i, c). completion_events pc lc dc ?n i c) ?zs)"
  have run: "scrape_all_urls url_list workers pc lc dc completed = Inr (records ?obs, ?tr)"
    using assms(1,2) by (rule scrape_all_urls_closed)
  from observed_prefix [OF assms(3,4)]
  have k: "k < length ?obs" and ok: "?obs ! k = completed ! k" by simp_all
  have lu: "length [1..<Suc (length ?obs)] = length ?obs" by (simp del: upt_Suc)
  have kz: "k < length ?zs" using k lu by (simp del: length_upt upt_Suc)
  have "[1..<Suc (length ?obs)] ! k = Suc k" using k by (simp del: upt_Suc)
  then have zk: "?zs ! k = (Suc k, completed ! k)"
    using k lu ok by (simp del: length_upt upt_Suc)
  have msg: "status_msg ?n (Suc k) (completed ! k) =
        (case task_result (completed ! k) of
           Returned data \<Rightarrow>
             if data \<noteq> []
             then ''['' @ str_nat (Suc k) @ ''/'' @ str_nat ?n @ ''] OK: '' @ task_url (completed ! k)
             else ''['' @ str_nat (Suc k) @ ''/'' @ str_nat ?n @ ''] ''
                    @ [CHR 0xC9] @ ''chec ou annul'' @ [CHR 0xE9] @ '': '' @ task_url (completed ! k)
         | Raised exc \<Rightarrow>
             ''['' @ str_nat (Suc k) @ ''/'' @ str_nat ?n @ ''] Exception pour ''
               @ task_url (completed ! k) @ '': '' @ exc)"
    by (simp add: status_msg_def msg_ok_def msg_failed_def msg_exception_def E_acute_def e_acute_def
        split: task_result.splits)
  have il: "info_log ?tr = map (\<lambda>(i, c). status_msg ?n i c) ?zs" by (rule info_log_run)
  have i1: "k < length (info_log ?tr)" unfolding il using kz by (simp del: length_zip length_upt upt_Suc)
  have i2: "info_log ?tr ! k = status_msg ?n (Suc k) (completed ! k)"
    unfolding il using kz zk by (simp del: length_zip length_upt upt_Suc)
  have p: "k < length (progress_calls ?tr)
      \<and> progress_calls ?tr ! k = (Suc k, ?n, status_msg ?n (Suc k) (completed ! k))" if pc
  proof -
    have "progress_calls ?tr = map (\<lambda>(i, c). (i, ?n, status_msg ?n i c)) ?zs"
      using that progress_calls_run [of lc dc ?n ?zs] by simp
    then show ?thesis using kz zk by (simp del: length_zip length_upt upt_Suc)
  qed
  have l: "k < length (log_calls ?tr)
      \<and> log_calls ?tr ! k = status_msg ?n (Suc k) (completed ! k)" if lc
  proof -
    have "log_calls ?tr = map (\<lambda>(i, c). status_msg ?n i c) ?zs"
      using that log_calls_run [of pc dc ?n ?zs] by simp
    then show ?thesis using kz zk by (simp del: length_zip length_upt upt_Suc)
  qed
  from run i1 i2 p l show ?thesis
    unfolding Let_def msg [symmetric] by blast
qed

text \<open>
  The message for an empty result is the French one of the source, not
  "[1/1] skipped/cancelled: u".
\<close>

theorem C8_counterexample:
  "scrape_all_urls [''u''] 1 True True False
     [\<lparr>task_url = ''u'', task_result = Returned [], stop_is_set = False\<rparr>]
   = Inr ([], [Logging INFO (''[1/1] '' @ [CHR 0xC9] @ ''chec ou annul'' @ [CHR 0xE9] @ '': u''),
               ProgressCallback 1 1 (''[1/1] '' @ [CHR 0xC9] @ ''chec ou annul'' @ [CHR 0xE9] @ '': u''),
               LogCallback (''[1/1] '' @ [CHR 0xC9] @ ''chec ou annul'' @ [CHR 0xE9] @ '': u'')])
 \<and> ''[1/1] '' @ [CHR 0xC9] @ ''chec ou annul'' @ [CHR 0xE9] @ '': u'' \<noteq> ''[1/1] skipped/cancelled: u''"
  by code_simp


theorem C8_status_messages_witness:
  "scrape_all_urls [''u'', ''v''] 2 True True False example_completed
     = Inr ([[(''url'', Str ''u'')]],
            [Logging INFO (msg_failed 1 2 ''v''), ProgressCallback 1 2 (msg_failed 1 2 ''v''),
             LogCallback (msg_failed 1 2 ''v''),
             Logging INFO (msg_ok 2 2 ''u''), ProgressCallback 2 2 (msg_ok 2 2 ''u''),
             LogCallback (msg_ok 2 2 ''u'')])
 \<and> info_log [Logging INFO (msg_failed 1 2 ''v''), ProgressCallback 1 2 (msg_failed 1 2 ''v''),
             LogCallback (msg_failed 1 2 ''v''),
             Logging INFO (msg_ok 2 2 ''u''), ProgressCallback 2 2 (msg_ok 2 2 ''u''),
             LogCallback (msg_ok 2 2 ''u'')] ! 1 = ''[2/2] OK: u''
 \<and> progress_calls [Logging INFO (msg_failed 1 2 ''v''), ProgressCallback 1 2 (msg_failed 1 2 ''v''),
             LogCallback (msg_failed 1 2 ''v''),
             Logging INFO (msg_ok 2 2 ''u''), ProgressCallback 2 2 (msg_ok 2 2 ''u''),
             LogCallback (msg_ok 2 2 ''u'')] ! 1 = (2, 2, ''[2/2] OK: u'')
 \<and> log_calls [Logging INFO (msg_failed 1 2 ''v''), ProgressCallback 1 2 (msg_failed 1 2 ''v''),
             LogCallback (msg_failed 1 2 ''v''),
             Logging INFO (msg_ok 2 2 ''u''), ProgressCallback 2 2 (msg_ok 2 2 ''u''),
             LogCallback (msg_ok 2 2 ''u'')] ! 1 = ''[2/2] OK: u''"
proof -
  let ?T = "[Logging INFO (msg_failed 1 2 ''v''), ProgressCallback 1 2 (msg_failed 1 2 ''v''),
             LogCallback (msg_failed 1 2 ''v''),
             Logging INFO (msg_ok 2 2 ''u''), ProgressCallback 2 2 (msg_ok 2 2 ''u''),
             LogCallback (msg_ok 2 2 ''u'')]"
  have h1: "[''u'', ''v''] \<noteq> []" by simp
  have h2: "(1::int) \<le> 2" by simp
  have h3: "1 < length example_completed" by (simp add: example_completed_def)
  have h4: "\<forall>c\<in>set (take (Suc 1) example_completed). \<not> stop_is_set c"
    by (simp add: example_completed_def)
  have run: "scrape_all_urls [''u'', ''v''] 2 True True False example_completed
     = Inr ([[(''url'', Str ''u'')]], ?T)"
    by code_simp
  have m: "(case task_result (example_completed ! 1) of
           Returned data \<Rightarrow>
             if data \<noteq> []
             then ''['' @ str_nat (Suc 1) @ ''/'' @ str_nat (length [''u'', ''v'']) @ ''] OK: ''
                    @ task_url (example_completed ! 1)
             else ''['' @ str_nat (Suc 1) @ ''/'' @ str_nat (length [''u'', ''v'']) @ ''] ''
                    @ [CHR 0xC9] @ ''chec ou annul'' @ [CHR 0xE9] @ '': ''
                    @ task_url (example_completed ! 1)
         | Raised exc \<Rightarrow>
             ''['' @ str_nat (Suc 1) @ ''/'' @ str_nat (length [''u'', ''v'']) @ ''] Exception pour ''
               @ task_url (example_completed ! 1) @ '': '' @ exc) = ''[2/2] OK: u''"
    by code_simp
  from C8_status_messages [OF h1 h2 h3 h4, of True True False, unfolded Let_def m]
  obtain results tr where
    r: "scrape_all_urls [''u'', ''v''] 2 True True False example_completed = Inr (results, tr)"
      "info_log tr ! 1 = ''[2/2] OK: u''"
      "progress_calls tr ! 1 = (Suc 1, length [''u'', ''v''], ''[2/2] OK: u'')"
      "log_calls tr ! 1 = ''[2/2] OK: u''"
    by blast
  from r(1) run have tr: "tr = ?T" by simp
  have n: "(Suc 1, length [''u'', ''v''], ''[2/2] OK: u'') = (2, 2, ''[2/2] OK: u'')" by simp
  from run r(2) r(3) [unfolded n] r(4) show ?thesis unfolding tr by (intro conjI)
qed

end
